theory Spec2Isabelle
  imports Complex_Main
begin

section \<open>Exceptions\<close>

text \<open>
  The Python exceptions that the modelled functions raise or catch. A function that can
  raise returns \<open>exn + 'a\<close>, \<open>Inl\<close> carrying the exception.
\<close>

datatype exn =
    TypeError
  | ZeroDivisionError
  | TimeoutError
  | QueueEmpty
  | QueueFull
  | OverflowError
  | Cv2Error
  | IndexError
  | ValueError
  | RuntimeError string
  | ConnectionError

section \<open>The frame bridge: \<open>asyncio.Queue(maxsize=2)\<close> and \<open>push\<close>\<close>

text \<open>
  \<open>GstPipeWireCallbackGrabber.__init__\<close> creates \<open>asyncio.Queue(maxsize=2)\<close>. The queue
  is a FIFO of its items together with its \<open>maxsize\<close>; the three operations used by
  \<open>push\<close> are those of \<open>asyncio.Queue\<close>: \<open>full\<close> is false for \<open>maxsize \<le> 0\<close> and
  otherwise compares the size, \<open>get_nowait\<close> raises \<open>QueueEmpty\<close> on an empty queue and
  \<open>put_nowait\<close> raises \<open>QueueFull\<close> on a full one. None of them waits.
\<close>

record 'a queue =
  maxsize :: int
  items :: "'a list"

definition grabber_queue_init :: "'a queue" where
  "grabber_queue_init = \<lparr>maxsize = 2, items = []\<rparr>"

definition full :: "'a queue \<Rightarrow> bool" where
  "full q = (if maxsize q \<le> 0 then False else int (length (items q)) \<ge> maxsize q)"

definition get_nowait :: "'a queue \<Rightarrow> exn + ('a \<times> 'a queue)" where
  "get_nowait q =
     (case items q of
        [] \<Rightarrow> Inl QueueEmpty
      | x # xs \<Rightarrow> Inr (x, q\<lparr>items := xs\<rparr>))"

definition put_nowait :: "'a queue \<Rightarrow> 'a \<Rightarrow> exn + 'a queue" where
  "put_nowait q x = (if full q then Inl QueueFull else Inr (q\<lparr>items := items q @ [x]\<rparr>))"

text \<open>
  The closure \<open>push\<close> of \<open>_on_new_sample\<close>, run on the event loop: when the queue is
  full one item is taken out (an exception of \<open>get_nowait\<close> is swallowed), then the
  frame is put without waiting.
\<close>

definition push :: "'a queue \<Rightarrow> 'a \<Rightarrow> exn + 'a queue" where
  "push q frame =
     (let q1 = (if full q
                then (case get_nowait q of Inl _ \<Rightarrow> q | Inr (_, q') \<Rightarrow> q')
                else q)
      in put_nowait q1 frame)"

text \<open>A run of insertions with no dequeue in between; the first exception ends it.\<close>

fun pushes :: "'a queue \<Rightarrow> 'a list \<Rightarrow> exn + 'a queue" where
  "pushes q [] = Inr q"
| "pushes q (f # fs) = (case push q f of Inl e \<Rightarrow> Inl e | Inr q' \<Rightarrow> pushes q' fs)"

text \<open>The last \<open>n\<close> elements of a list.\<close>

definition last_n :: "nat \<Rightarrow> 'a list \<Rightarrow> 'a list" where
  "last_n n xs = drop (length xs - n) xs"

lemma push_cap2:
  assumes "maxsize q = 2" and "length (items q) \<le> 2"
  shows "push q f = Inr (q\<lparr>items := last_n 2 (items q @ [f])\<rparr>)"
proof (cases "items q")
  case Nil
  with assms show ?thesis
    by (simp add: push_def full_def put_nowait_def last_n_def)
next
  case (Cons a as)
  note outer = Cons
  show ?thesis
  proof (cases as)
    case Nil
    with outer assms show ?thesis
      by (simp add: push_def full_def put_nowait_def last_n_def)
  next
    case (Cons b bs)
    with outer assms have "bs = []" by simp
    with Cons outer assms show ?thesis
      by (simp add: push_def full_def put_nowait_def get_nowait_def last_n_def)
  qed
qed

lemma last_n_rev: "last_n n xs = rev (take n (rev xs))"
  by (simp add: last_n_def rev_take)

lemma last_n_append: "last_n n (last_n n xs @ ys) = last_n n (xs @ ys)"
  by (simp add: last_n_rev min_def)

lemma length_last_n: "length (last_n n xs) = min n (length xs)"
  by (simp add: last_n_def)

lemma pushes_cap2:
  "maxsize q = 2 \<Longrightarrow> length (items q) \<le> 2 \<Longrightarrow>
   pushes q fs = Inr (q\<lparr>items := last_n 2 (items q @ fs)\<rparr>)"
proof (induction fs arbitrary: q)
  case Nil
  then show ?case by (simp add: last_n_def)
next
  case (Cons f fs)
  let ?q' = "q\<lparr>items := last_n 2 (items q @ [f])\<rparr>"
  have step: "push q f = Inr ?q'"
    using Cons.prems by (rule push_cap2)
  have m: "maxsize ?q' = 2" using Cons.prems by simp
  have l: "length (items ?q') \<le> 2" by (simp add: length_last_n)
  have "pushes ?q' fs = Inr (?q'\<lparr>items := last_n 2 (items ?q' @ fs)\<rparr>)"
    using m l by (rule Cons.IH)
  moreover have "last_n 2 (items ?q' @ fs) = last_n 2 (items q @ f # fs)"
  proof -
    have "last_n 2 (last_n 2 (items q @ [f]) @ fs) = last_n 2 ((items q @ [f]) @ fs)"
      by (rule last_n_append)
    then show ?thesis by simp
  qed
  ultimately show ?case using step by simp
qed

text \<open>
  C2. Starting from any state the bridge queue can be in (capacity 2, at most 2 frames
  held), every run of insertions succeeds without raising \<open>QueueFull\<close> and without
  waiting, the queue then holds the last two of the frames held before and inserted
  since, in insertion order, hence at most 2 frames; from the fresh queue of \<open>__init__\<close>
  it holds exactly the last two inserted frames.
\<close>

theorem frame_queue_latest_two:
  assumes "maxsize q = 2" and "length (items q) \<le> 2"
  shows "pushes q fs = Inr (q\<lparr>items := last_n 2 (items q @ fs)\<rparr>)
         \<and> length (last_n 2 (items q @ fs)) \<le> 2
         \<and> pushes grabber_queue_init fs = Inr \<lparr>maxsize = 2, items = last_n 2 fs\<rparr>
         \<and> (length fs > 2 \<longrightarrow> length (last_n 2 fs) = 2)"
proof -
  have a: "pushes q fs = Inr (q\<lparr>items := last_n 2 (items q @ fs)\<rparr>)"
    using assms by (rule pushes_cap2)
  have b: "length (last_n 2 (items q @ fs)) \<le> 2"
    by (simp add: length_last_n)
  have "pushes grabber_queue_init fs
          = Inr (grabber_queue_init\<lparr>items := last_n 2 (items grabber_queue_init @ fs)\<rparr>)"
    by (rule pushes_cap2) (simp_all add: grabber_queue_init_def)
  then have c: "pushes grabber_queue_init fs = Inr \<lparr>maxsize = 2, items = last_n 2 fs\<rparr>"
    by (simp add: grabber_queue_init_def)
  have d: "length fs > 2 \<longrightarrow> length (last_n 2 fs) = 2"
    by (simp add: length_last_n)
  from a b c d show ?thesis by blast
qed

theorem frame_queue_latest_two_witness:
  "pushes \<lparr>maxsize = 2, items = [1::nat, 2]\<rparr> [3, 4, 5] = Inr \<lparr>maxsize = 2, items = [4, 5]\<rparr>
   \<and> pushes (grabber_queue_init :: nat queue) [1, 2, 3] = Inr \<lparr>maxsize = 2, items = [2, 3]\<rparr>"
  using frame_queue_latest_two [of "\<lparr>maxsize = 2, items = [1::nat, 2]\<rparr>" "[3, 4, 5]"]
    frame_queue_latest_two [of "\<lparr>maxsize = 2, items = [1::nat, 2]\<rparr>" "[1, 2, 3]"]
  by (simp add: last_n_def)


section \<open>\<open>unwrap\<close>: removing \<open>Variant\<close> wrappers\<close>

text \<open>
  The values \<open>unwrap\<close> is applied to: D-Bus message bodies as \<open>dbus_next\<close> decodes them.
  Atoms are \<open>None\<close>, booleans, integers, finite floats (each the rational it denotes),
  strings and bytes; \<open>Variant(signature, value)\<close> wraps a value; a dictionary is the list of its items in insertion order; lists and tuples
  are kept apart because \<open>unwrap\<close> tests for both.
\<close>

datatype pyval =
    PNone
  | PBool bool
  | PInt int
  | PStr string
  | PFloat rat
  | PBytes string
  | Variant string pyval
  | PDict "(pyval \<times> pyval) list"
  | PList "pyval list"
  | PTuple "pyval list"

text \<open>
  What Python needs of a dictionary key. A key must be hashable: lists, dictionaries and
  \<open>Variant\<close> (which defines \<open>__eq__\<close> and no \<open>__hash__\<close>) are not, a tuple is when its
  elements are. Two keys are the same key when they are equal, and \<open>True == 1\<close>,
  \<open>False == 0\<close>, \<open>1.0 == 1\<close>: \<open>norm_key\<close> maps a boolean and a float with an integer
  value to that integer. Storing under a key that is already present keeps the old key
  object and replaces the value.
\<close>

fun hashable :: "pyval \<Rightarrow> bool" where
  "hashable (Variant s v) = False"
| "hashable (PDict d) = False"
| "hashable (PList xs) = False"
| "hashable (PTuple xs) = list_all hashable xs"
| "hashable v = True"

fun norm_key :: "pyval \<Rightarrow> pyval" where
  "norm_key (PBool b) = PInt (if b then 1 else 0)"
| "norm_key (PFloat r) = (if of_int \<lfloor>r\<rfloor> = r then PInt \<lfloor>r\<rfloor> else PFloat r)"
| "norm_key (PTuple xs) = PTuple (map norm_key xs)"
| "norm_key v = v"

definition key_eq :: "pyval \<Rightarrow> pyval \<Rightarrow> bool" where
  "key_eq a b = (norm_key a = norm_key b)"

fun dict_setitem :: "(pyval \<times> pyval) list \<Rightarrow> pyval \<Rightarrow> pyval \<Rightarrow> (pyval \<times> pyval) list" where
  "dict_setitem [] k v = [(k, v)]"
| "dict_setitem ((k', v') # d) k v =
     (if key_eq k' k then (k', v) # d else (k', v') # dict_setitem d k v)"

text \<open>
  \<open>unwrap\<close>, branch by branch: a \<open>Variant\<close> gives the unwrapped \<open>v.value\<close>; a \<open>dict\<close>
  gives the comprehension \<open>{unwrap(k): unwrap(val) for k, val in v.items()}\<close>, built item
  by item (\<open>unwrap_items\<close>, the dictionary so far as accumulator), which raises
  \<open>TypeError\<close> when an unwrapped key is unhashable; a list or tuple gives the list
  comprehension (\<open>unwrap_list\<close>); anything else is returned as it is.
\<close>

function (sequential) unwrap :: "pyval \<Rightarrow> exn + pyval"
  and unwrap_list :: "pyval list \<Rightarrow> exn + pyval list"
  and unwrap_items :: "(pyval \<times> pyval) list \<Rightarrow> (pyval \<times> pyval) list \<Rightarrow> exn + (pyval \<times> pyval) list"
where
  "unwrap (Variant s v) = unwrap v"
| "unwrap (PDict kvs) = (case unwrap_items kvs [] of Inl e \<Rightarrow> Inl e | Inr d \<Rightarrow> Inr (PDict d))"
| "unwrap (PList xs) = (case unwrap_list xs of Inl e \<Rightarrow> Inl e | Inr ys \<Rightarrow> Inr (PList ys))"
| "unwrap (PTuple xs) = (case unwrap_list xs of Inl e \<Rightarrow> Inl e | Inr ys \<Rightarrow> Inr (PList ys))"
| "unwrap PNone = Inr PNone"
| "unwrap (PBool b) = Inr (PBool b)"
| "unwrap (PInt i) = Inr (PInt i)"
| "unwrap (PStr s) = Inr (PStr s)"
| "unwrap (PFloat r) = Inr (PFloat r)"
| "unwrap (PBytes s) = Inr (PBytes s)"
| "unwrap_list [] = Inr []"
| "unwrap_list (x # xs) =
     (case unwrap x of
        Inl e \<Rightarrow> Inl e
      | Inr y \<Rightarrow> (case unwrap_list xs of Inl e \<Rightarrow> Inl e | Inr ys \<Rightarrow> Inr (y # ys)))"
| "unwrap_items [] acc = Inr acc"
| "unwrap_items ((k, v) # kvs) acc =
     (case unwrap k of
        Inl e \<Rightarrow> Inl e
      | Inr uk \<Rightarrow>
          (case unwrap v of
             Inl e \<Rightarrow> Inl e
           | Inr uv \<Rightarrow>
               if hashable uk then unwrap_items kvs (dict_setitem acc uk uv)
               else Inl TypeError))"
  by pat_completeness auto
termination
  by (relation "measure (case_sum size (case_sum (size_list size)
        (\<lambda>p. size_list (size_prod size size) (fst p))))") auto


text \<open>No \<open>Variant\<close> at any nesting depth, dictionary keys included.\<close>

function (sequential) no_variant :: "pyval \<Rightarrow> bool"
  and no_variant_list :: "pyval list \<Rightarrow> bool"
  and no_variant_items :: "(pyval \<times> pyval) list \<Rightarrow> bool"
where
  "no_variant (Variant s v) = False"
| "no_variant (PDict kvs) = no_variant_items kvs"
| "no_variant (PList xs) = no_variant_list xs"
| "no_variant (PTuple xs) = no_variant_list xs"
| "no_variant PNone = True"
| "no_variant (PBool b) = True"
| "no_variant (PInt i) = True"
| "no_variant (PStr s) = True"
| "no_variant (PFloat r) = True"
| "no_variant (PBytes s) = True"
| "no_variant_list [] = True"
| "no_variant_list (x # xs) = (no_variant x \<and> no_variant_list xs)"
| "no_variant_items [] = True"
| "no_variant_items ((k, v) # kvs) = (no_variant k \<and> no_variant v \<and> no_variant_items kvs)"
  by pat_completeness auto
termination
  by (relation "measure (case_sum size (case_sum (size_list size)
        (size_list (size_prod size size))))") auto

text \<open>
  The shape of a result of \<open>unwrap\<close>: no \<open>Variant\<close> and no tuple anywhere, and every
  dictionary has hashable, pairwise different keys.
\<close>

fun norm_keys :: "(pyval \<times> pyval) list \<Rightarrow> pyval list" where
  "norm_keys [] = []"
| "norm_keys ((k, v) # d) = norm_key k # norm_keys d"

lemma norm_keys_append: "norm_keys (xs @ ys) = norm_keys xs @ norm_keys ys"
  by (induction xs) auto

function (sequential) unwrapped :: "pyval \<Rightarrow> bool"
  and unwrapped_list :: "pyval list \<Rightarrow> bool"
  and unwrapped_items :: "(pyval \<times> pyval) list \<Rightarrow> bool"
where
  "unwrapped (Variant s v) = False"
| "unwrapped (PDict kvs) = (unwrapped_items kvs \<and> distinct (norm_keys kvs))"
| "unwrapped (PList xs) = unwrapped_list xs"
| "unwrapped (PTuple xs) = False"
| "unwrapped PNone = True"
| "unwrapped (PBool b) = True"
| "unwrapped (PInt i) = True"
| "unwrapped (PStr s) = True"
| "unwrapped (PFloat r) = True"
| "unwrapped (PBytes s) = True"
| "unwrapped_list [] = True"
| "unwrapped_list (x # xs) = (unwrapped x \<and> unwrapped_list xs)"
| "unwrapped_items [] = True"
| "unwrapped_items ((k, v) # kvs) =
     (hashable k \<and> unwrapped k \<and> unwrapped v \<and> unwrapped_items kvs)"
  by pat_completeness auto
termination
  by (relation "measure (case_sum size (case_sum (size_list size)
        (size_list (size_prod size size))))") auto

lemma unwrapped_items_setitem:
  "unwrapped_items acc \<Longrightarrow> hashable k \<Longrightarrow> unwrapped k \<Longrightarrow> unwrapped v \<Longrightarrow>
   unwrapped_items (dict_setitem acc k v)"
  by (induction acc k v rule: dict_setitem.induct) auto

lemma keys_setitem:
  "norm_keys (dict_setitem acc k v) =
     (if norm_key k \<in> set (norm_keys acc) then norm_keys acc
      else norm_keys acc @ [norm_key k])"
  by (induction acc k v rule: dict_setitem.induct) (auto simp: key_eq_def)

lemma distinct_setitem:
  "distinct (norm_keys acc) \<Longrightarrow> distinct (norm_keys (dict_setitem acc k v))"
  by (simp add: keys_setitem)

lemma setitem_fresh:
  "norm_key k \<notin> set (norm_keys acc) \<Longrightarrow> dict_setitem acc k v = acc @ [(k, v)]"
  by (induction acc k v rule: dict_setitem.induct) (auto simp: key_eq_def)

lemma unwrapped_items_append:
  "unwrapped_items (xs @ ys) = (unwrapped_items xs \<and> unwrapped_items ys)"
  by (induction xs) auto

lemma unwrap_result_unwrapped:
  "(\<forall>r. unwrap v = Inr r \<longrightarrow> unwrapped r)"
  "(\<forall>ys. unwrap_list xs = Inr ys \<longrightarrow> unwrapped_list ys)"
  "(\<forall>d. unwrap_items kvs acc = Inr d \<longrightarrow> unwrapped_items acc \<longrightarrow>
        distinct (norm_keys acc) \<longrightarrow>
        unwrapped_items d \<and> distinct (norm_keys d))"
proof (induction v and xs and kvs acc rule: unwrap_unwrap_list_unwrap_items.induct)
  case (14 k v kvs acc)
  show ?case
  proof (intro allI impI)
    fix d
    assume res: "unwrap_items ((k, v) # kvs) acc = Inr d"
      and a1: "unwrapped_items acc" and a2: "distinct (norm_keys acc)"
    from res obtain uk uv where uk: "unwrap k = Inr uk" and uv: "unwrap v = Inr uv"
      and h: "hashable uk" and rest: "unwrap_items kvs (dict_setitem acc uk uv) = Inr d"
      by (auto split: sum.splits if_splits)
    from "14.IH"(1) uk have c1: "unwrapped uk" by simp
    from "14.IH"(2) [OF uk] uv have c2: "unwrapped uv" by simp
    have "unwrapped_items (dict_setitem acc uk uv)"
      using a1 h c1 c2 by (rule unwrapped_items_setitem)
    moreover have "distinct (norm_keys (dict_setitem acc uk uv))"
      using a2 by (rule distinct_setitem)
    ultimately show "unwrapped_items d \<and> distinct (norm_keys d)"
      using "14.IH"(3) [OF uk uv h] rest by blast
  qed
qed (auto split: sum.splits)

lemma unwrapped_fixed:
  "(unwrapped v \<longrightarrow> unwrap v = Inr v)"
  "(unwrapped_list xs \<longrightarrow> unwrap_list xs = Inr xs)"
  "(unwrapped_items kvs \<longrightarrow> distinct (norm_keys (acc @ kvs)) \<longrightarrow>
      unwrap_items kvs acc = Inr (acc @ kvs))"
proof (induction v and xs and kvs acc rule: unwrap_unwrap_list_unwrap_items.induct)
  case (14 k v kvs acc)
  show ?case
  proof (intro impI)
    assume u: "unwrapped_items ((k, v) # kvs)"
      and d: "distinct (norm_keys (acc @ (k, v) # kvs))"
    from u have hk: "hashable k" and ck: "unwrapped k" and cv: "unwrapped v"
      and rest: "unwrapped_items kvs" by simp_all
    from "14.IH"(1) ck have uk: "unwrap k = Inr k" by simp
    from "14.IH"(2) [OF uk] cv have uv: "unwrap v = Inr v" by simp
    from d have "norm_key k \<notin> set (norm_keys acc)" by (simp add: norm_keys_append)
    then have si: "dict_setitem acc k v = acc @ [(k, v)]" by (rule setitem_fresh)
    from d have d': "distinct (norm_keys (dict_setitem acc k v @ kvs))"
      by (simp add: si norm_keys_append)
    from "14.IH"(3) [OF uk uv hk] rest d'
    have "unwrap_items kvs (dict_setitem acc k v) = Inr (dict_setitem acc k v @ kvs)" by blast
    then show "unwrap_items ((k, v) # kvs) acc = Inr (acc @ (k, v) # kvs)"
      using uk uv hk by (simp add: si)
  qed
qed auto

lemma unwrapped_no_variant:
  "(unwrapped v \<longrightarrow> no_variant v)"
  "(unwrapped_list xs \<longrightarrow> no_variant_list xs)"
  "(unwrapped_items kvs \<longrightarrow> no_variant_items kvs)"
  by (induction v and xs and kvs rule: unwrapped_unwrapped_list_unwrapped_items.induct) auto


lemma unwrap_list_elementwise:
  "unwrap_list xs = Inr ys \<Longrightarrow> list_all2 (\<lambda>x y. unwrap x = Inr y) xs ys"
  by (induction xs arbitrary: ys) (auto split: sum.splits)

text \<open>
  D-Bus allows only basic types as dictionary keys. On values whose dictionary keys are
  booleans, integers, strings or floats, \<open>unwrap\<close> raises nothing.
\<close>

function (sequential) basic_keys :: "pyval \<Rightarrow> bool"
  and basic_keys_list :: "pyval list \<Rightarrow> bool"
  and basic_keys_items :: "(pyval \<times> pyval) list \<Rightarrow> bool"
where
  "basic_keys (Variant s v) = basic_keys v"
| "basic_keys (PDict kvs) = basic_keys_items kvs"
| "basic_keys (PList xs) = basic_keys_list xs"
| "basic_keys (PTuple xs) = basic_keys_list xs"
| "basic_keys PNone = True"
| "basic_keys (PBool b) = True"
| "basic_keys (PInt i) = True"
| "basic_keys (PStr s) = True"
| "basic_keys (PFloat r) = True"
| "basic_keys (PBytes s) = True"
| "basic_keys_list [] = True"
| "basic_keys_list (x # xs) = (basic_keys x \<and> basic_keys_list xs)"
| "basic_keys_items [] = True"
| "basic_keys_items ((k, v) # kvs) =
     (k \<in> range PBool \<union> range PInt \<union> range PStr \<union> range PFloat
      \<and> basic_keys v \<and> basic_keys_items kvs)"
  by pat_completeness auto
termination
  by (relation "measure (case_sum size (case_sum (size_list size)
        (size_list (size_prod size size))))") auto

lemma unwrap_total:
  "(basic_keys v \<longrightarrow> (\<exists>r. unwrap v = Inr r))"
  "(basic_keys_list xs \<longrightarrow> (\<exists>ys. unwrap_list xs = Inr ys))"
  "(basic_keys_items kvs \<longrightarrow> (\<exists>d. unwrap_items kvs acc = Inr d))"
proof (induction v and xs and kvs acc rule: unwrap_unwrap_list_unwrap_items.induct)
  case (14 k v kvs acc)
  show ?case
  proof
    assume b: "basic_keys_items ((k, v) # kvs)"
    then have kk: "k \<in> range PBool \<union> range PInt \<union> range PStr \<union> range PFloat"
      and bv: "basic_keys v"
      and br: "basic_keys_items kvs" by simp_all
    from kk have uk: "unwrap k = Inr k" and hk: "hashable k" by auto
    from "14.IH"(2) [OF uk] bv obtain uv where uv: "unwrap v = Inr uv" by blast
    from "14.IH"(3) [OF uk uv hk] br obtain d where "unwrap_items kvs (dict_setitem acc k uv) = Inr d"
      by blast
    then show "\<exists>d. unwrap_items ((k, v) # kvs) acc = Inr d"
      using uk uv hk by simp
  qed
qed auto

text \<open>
  The dictionary that results from storing the given items in order into an empty one,
  and the relation between the items of a dictionary and their unwrapped forms: the same
  number of items, in the same order, each key and each value unwrapped.
\<close>

definition dict_of_items :: "(pyval \<times> pyval) list \<Rightarrow> (pyval \<times> pyval) list" where
  "dict_of_items ukvs = foldl (\<lambda>d ukv. dict_setitem d (fst ukv) (snd ukv)) [] ukvs"

definition unwrapped_item :: "pyval \<times> pyval \<Rightarrow> pyval \<times> pyval \<Rightarrow> bool" where
  "unwrapped_item kv ukv = (unwrap (fst kv) = Inr (fst ukv) \<and> unwrap (snd kv) = Inr (snd ukv))"

lemma unwrap_list_conv:
  "list_all2 (\<lambda>x y. unwrap x = Inr y) xs ys \<Longrightarrow> unwrap_list xs = Inr ys"
  by (induction xs ys rule: list_all2_induct) simp_all

lemma unwrap_items_fold:
  "unwrap_items kvs acc = Inr d \<Longrightarrow>
   \<exists>ukvs. list_all2 unwrapped_item kvs ukvs \<and> list_all (\<lambda>ukv. hashable (fst ukv)) ukvs
      \<and> d = foldl (\<lambda>d ukv. dict_setitem d (fst ukv) (snd ukv)) acc ukvs"
proof (induction kvs arbitrary: acc)
  case Nil
  then show ?case by simp
next
  case (Cons kv kvs)
  obtain k v where kv: "kv = (k, v)" by (cases kv)
  from Cons.prems kv obtain uk uv where uk: "unwrap k = Inr uk" and uv: "unwrap v = Inr uv"
    and h: "hashable uk" and rest: "unwrap_items kvs (dict_setitem acc uk uv) = Inr d"
    by (auto split: sum.splits if_splits)
  from Cons.IH [OF rest] obtain ukvs where a: "list_all2 unwrapped_item kvs ukvs"
    and b: "list_all (\<lambda>ukv. hashable (fst ukv)) ukvs"
    and c: "d = foldl (\<lambda>d ukv. dict_setitem d (fst ukv) (snd ukv)) (dict_setitem acc uk uv) ukvs"
    by blast
  have "list_all2 unwrapped_item (kv # kvs) ((uk, uv) # ukvs)"
    using a uk uv kv by (simp add: unwrapped_item_def)
  moreover have "list_all (\<lambda>ukv. hashable (fst ukv)) ((uk, uv) # ukvs)" using b h by simp
  moreover have "d = foldl (\<lambda>d ukv. dict_setitem d (fst ukv) (snd ukv)) acc ((uk, uv) # ukvs)"
    using c by simp
  ultimately show ?case by blast
qed

lemma unwrap_items_conv:
  "list_all2 unwrapped_item kvs ukvs \<Longrightarrow> list_all (\<lambda>ukv. hashable (fst ukv)) ukvs \<Longrightarrow>
   unwrap_items kvs acc = Inr (foldl (\<lambda>d ukv. dict_setitem d (fst ukv) (snd ukv)) acc ukvs)"
proof (induction kvs ukvs arbitrary: acc rule: list_all2_induct)
  case Nil
  then show ?case by simp
next
  case (Cons kv kvs ukv ukvs)
  obtain k v where kv: "kv = (k, v)" by (cases kv)
  from Cons.hyps(1) kv have uk: "unwrap k = Inr (fst ukv)" and uv: "unwrap v = Inr (snd ukv)"
    by (simp_all add: unwrapped_item_def)
  from Cons.prems have h: "hashable (fst ukv)" and r: "list_all (\<lambda>ukv. hashable (fst ukv)) ukvs"
    by simp_all
  from Cons.IH [OF r, of "dict_setitem acc (fst ukv) (snd ukv)"] uk uv h kv show ?case by simp
qed

lemma unwrap_items_unhashable:
  "list_all2 unwrapped_item kvs ukvs \<Longrightarrow> \<not> list_all (\<lambda>ukv. hashable (fst ukv)) ukvs \<Longrightarrow>
   unwrap_items kvs acc = Inl TypeError"
proof (induction kvs ukvs arbitrary: acc rule: list_all2_induct)
  case Nil
  then show ?case by simp
next
  case (Cons kv kvs ukv ukvs)
  obtain k v where kv: "kv = (k, v)" by (cases kv)
  from Cons.hyps(1) kv have uk: "unwrap k = Inr (fst ukv)" and uv: "unwrap v = Inr (snd ukv)"
    by (simp_all add: unwrapped_item_def)
  show ?case
  proof (cases "hashable (fst ukv)")
    case True
    with Cons.prems have "\<not> list_all (\<lambda>ukv. hashable (fst ukv)) ukvs" by simp
    from Cons.IH [OF this, of "dict_setitem acc (fst ukv) (snd ukv)"] uk uv True kv
    show ?thesis by simp
  next
    case False
    with uk uv kv show ?thesis by simp
  qed
qed

lemma foldl_setitem_fresh:
  "distinct (norm_keys (acc @ ukvs)) \<Longrightarrow>
   foldl (\<lambda>d ukv. dict_setitem d (fst ukv) (snd ukv)) acc ukvs = acc @ ukvs"
proof (induction ukvs arbitrary: acc)
  case Nil
  then show ?case by simp
next
  case (Cons ukv ukvs)
  obtain uk uv where p: "ukv = (uk, uv)" by (cases ukv)
  from Cons.prems p have "norm_key uk \<notin> set (norm_keys acc)" by (simp add: norm_keys_append)
  then have si: "dict_setitem acc uk uv = acc @ [(uk, uv)]" by (rule setitem_fresh)
  from Cons.prems p have "distinct (norm_keys ((acc @ [(uk, uv)]) @ ukvs))" by simp
  from Cons.IH [OF this] si p show ?case by simp
qed

text \<open>
  C10. \<open>unwrap\<close> is idempotent: unwrapping the result of \<open>unwrap\<close> gives that result
  again (and where \<open>unwrap\<close> raises, so does the composition). A result holds no
  \<open>Variant\<close> at any depth. A \<open>Variant\<close> is replaced by its unwrapped value. A list and a
  tuple become exactly the list of their unwrapped elements, in order. A dictionary
  becomes exactly the dictionary of its items with each key and each value unwrapped,
  stored in order: every item is kept, in order, key with its own value, when the
  unwrapped keys are different keys; it raises \<open>TypeError\<close> when an unwrapped key is
  unhashable.
\<close>

theorem unwrap_idempotent:
  "(case unwrap v of Inl e \<Rightarrow> Inl e | Inr r \<Rightarrow> unwrap r) = unwrap v
   \<and> (unwrap v = Inr r \<longrightarrow> unwrap r = Inr r \<and> no_variant r)
   \<and> unwrap (Variant s x) = unwrap x
   \<and> unwrap (PTuple xs) = unwrap (PList xs)
   \<and> (unwrap (PList xs) = Inr r' \<longrightarrow>
        (\<exists>ys. r' = PList ys \<and> list_all2 (\<lambda>x y. unwrap x = Inr y) xs ys))
   \<and> (list_all2 (\<lambda>x y. unwrap x = Inr y) xs ys \<longrightarrow> unwrap (PList xs) = Inr (PList ys))
   \<and> (unwrap (PDict kvs) = Inr r'' \<longrightarrow>
        (\<exists>ukvs. list_all2 unwrapped_item kvs ukvs
           \<and> list_all (\<lambda>ukv. hashable (fst ukv)) ukvs
           \<and> r'' = PDict (dict_of_items ukvs)))
   \<and> (list_all2 unwrapped_item kvs ukvs \<and> list_all (\<lambda>ukv. hashable (fst ukv)) ukvs \<longrightarrow>
        unwrap (PDict kvs) = Inr (PDict (dict_of_items ukvs)))
   \<and> (list_all2 unwrapped_item kvs ukvs \<and> \<not> list_all (\<lambda>ukv. hashable (fst ukv)) ukvs \<longrightarrow>
        unwrap (PDict kvs) = Inl TypeError)
   \<and> (distinct (norm_keys ukvs) \<longrightarrow> dict_of_items ukvs = ukvs)"
proof -
  have fixpt: "unwrap r0 = Inr r0 \<and> no_variant r0" if "unwrap v0 = Inr r0" for v0 r0
    using that unwrap_result_unwrapped(1) [of v0] unwrapped_fixed(1) [of r0]
      unwrapped_no_variant(1) [of r0] by blast
  have a: "(case unwrap v of Inl e \<Rightarrow> Inl e | Inr r \<Rightarrow> unwrap r) = unwrap v"
    using fixpt [of v] by (cases "unwrap v") auto
  have b: "unwrap v = Inr r \<longrightarrow> unwrap r = Inr r \<and> no_variant r"
    using fixpt by blast
  have c: "unwrap (PList xs) = Inr r' \<longrightarrow>
        (\<exists>ys. r' = PList ys \<and> list_all2 (\<lambda>x y. unwrap x = Inr y) xs ys)"
    using unwrap_list_elementwise [of xs] by (auto split: sum.splits)
  have c': "list_all2 (\<lambda>x y. unwrap x = Inr y) xs ys \<longrightarrow> unwrap (PList xs) = Inr (PList ys)"
    using unwrap_list_conv [of xs ys] by simp
  have d: "unwrap (PDict kvs) = Inr r'' \<longrightarrow>
        (\<exists>ukvs. list_all2 unwrapped_item kvs ukvs
           \<and> list_all (\<lambda>ukv. hashable (fst ukv)) ukvs
           \<and> r'' = PDict (dict_of_items ukvs))"
  proof
    assume "unwrap (PDict kvs) = Inr r''"
    then obtain dd where dd: "unwrap_items kvs [] = Inr dd" and r: "r'' = PDict dd"
      by (auto split: sum.splits)
    from unwrap_items_fold [OF dd] r show "\<exists>ukvs. list_all2 unwrapped_item kvs ukvs
           \<and> list_all (\<lambda>ukv. hashable (fst ukv)) ukvs
           \<and> r'' = PDict (dict_of_items ukvs)"
      unfolding dict_of_items_def by blast
  qed
  have d': "list_all2 unwrapped_item kvs ukvs \<and> list_all (\<lambda>ukv. hashable (fst ukv)) ukvs \<longrightarrow>
        unwrap (PDict kvs) = Inr (PDict (dict_of_items ukvs))"
    using unwrap_items_conv [of kvs ukvs "[]"] by (simp add: dict_of_items_def)
  have d'': "list_all2 unwrapped_item kvs ukvs \<and> \<not> list_all (\<lambda>ukv. hashable (fst ukv)) ukvs \<longrightarrow>
        unwrap (PDict kvs) = Inl TypeError"
    using unwrap_items_unhashable [of kvs ukvs "[]"] by simp
  have e: "distinct (norm_keys ukvs) \<longrightarrow> dict_of_items ukvs = ukvs"
    using foldl_setitem_fresh [of "[]" ukvs] by (simp add: dict_of_items_def)
  from a b c c' d d' d'' e show ?thesis by simp
qed

theorem unwrap_idempotent_witness:
  "unwrap (PDict [(PStr ''streams'',
       Variant ''a(ua{sv})'' (PList [PTuple [PInt 42,
          PDict [(PStr ''size'', Variant ''(ii)'' (PTuple [PInt 1920, PInt 1080]))]]])),
       (PStr ''persist_mode'', Variant ''u'' (PInt 0))])
     = Inr (PDict [(PStr ''streams'',
          PList [PList [PInt 42, PDict [(PStr ''size'', PList [PInt 1920, PInt 1080])]]]),
          (PStr ''persist_mode'', PInt 0)])
   \<and> unwrap (PDict [(PStr ''streams'',
          PList [PList [PInt 42, PDict [(PStr ''size'', PList [PInt 1920, PInt 1080])]]]),
          (PStr ''persist_mode'', PInt 0)])
     = Inr (PDict [(PStr ''streams'',
          PList [PList [PInt 42, PDict [(PStr ''size'', PList [PInt 1920, PInt 1080])]]]),
          (PStr ''persist_mode'', PInt 0)])
   \<and> no_variant (PDict [(PStr ''streams'',
          PList [PList [PInt 42, PDict [(PStr ''size'', PList [PInt 1920, PInt 1080])]]]),
          (PStr ''persist_mode'', PInt 0)])"
proof -
  let ?kvs = "[(PStr ''streams'',
       Variant ''a(ua{sv})'' (PList [PTuple [PInt 42,
          PDict [(PStr ''size'', Variant ''(ii)'' (PTuple [PInt 1920, PInt 1080]))]]])),
       (PStr ''persist_mode'', Variant ''u'' (PInt 0))]"
  let ?ukvs = "[(PStr ''streams'',
          PList [PList [PInt 42, PDict [(PStr ''size'', PList [PInt 1920, PInt 1080])]]]),
          (PStr ''persist_mode'', PInt 0)]"
  have i: "list_all2 unwrapped_item ?kvs ?ukvs" by (simp add: unwrapped_item_def)
  have h: "list_all (\<lambda>ukv. hashable (fst ukv)) ?ukvs" by simp
  have n: "distinct (norm_keys ?ukvs)" by simp
  from unwrap_idempotent [where kvs = ?kvs and ukvs = ?ukvs] i h n
  have e: "unwrap (PDict ?kvs) = Inr (PDict ?ukvs)" by simp
  from unwrap_idempotent [where v = "PDict ?kvs" and r = "PDict ?ukvs"] e
  show ?thesis by blast
qed

section \<open>The ingest endpoint: \<open>build_ws_url\<close>\<close>

text \<open>
  Python's \<open>str.rstrip(chars)\<close> removes every trailing character that is in \<open>chars\<close>,
  and \<open>s.startswith(p)\<close> tests whether \<open>p\<close> is a prefix of \<open>s\<close>.
\<close>

definition rstrip :: "string \<Rightarrow> string \<Rightarrow> string" where
  "rstrip s chars = rev (dropWhile (\<lambda>c. c \<in> set chars) (rev s))"

definition startswith :: "string \<Rightarrow> string \<Rightarrow> bool" where
  "startswith s p = (take (length p) s = p)"

text \<open>
  \<open>build_ws_url\<close> of \<open>streamer_linux.py\<close>; the Windows and macOS files define the same
  function again, modelled as \<open>build_ws_url_windows\<close> and \<open>build_ws_url_mac\<close>.
\<close>

definition build_ws_url :: "string \<Rightarrow> string \<Rightarrow> string \<Rightarrow> string" where
  "build_ws_url api_base room player =
     (let api_base = rstrip api_base ''/'';
          ws_base =
            (if startswith api_base ''https://'' then ''wss://'' @ drop (length ''https://'') api_base
             else if startswith api_base ''http://'' then ''ws://'' @ drop (length ''http://'') api_base
             else if startswith api_base ''ws://'' \<or> startswith api_base ''wss://'' then api_base
             else ''ws://'' @ api_base)
      in ws_base @ ''/ingest?room='' @ room @ ''&player='' @ player)"

definition build_ws_url_windows :: "string \<Rightarrow> string \<Rightarrow> string \<Rightarrow> string" where
  "build_ws_url_windows api_base room player =
     (let api_base = rstrip api_base ''/'';
          ws_base =
            (if startswith api_base ''https://'' then ''wss://'' @ drop (length ''https://'') api_base
             else if startswith api_base ''http://'' then ''ws://'' @ drop (length ''http://'') api_base
             else if startswith api_base ''ws://'' \<or> startswith api_base ''wss://'' then api_base
             else ''ws://'' @ api_base)
      in ws_base @ ''/ingest?room='' @ room @ ''&player='' @ player)"

definition build_ws_url_mac :: "string \<Rightarrow> string \<Rightarrow> string \<Rightarrow> string" where
  "build_ws_url_mac api_base room player =
     (let api_base = rstrip api_base ''/'';
          ws_base =
            (if startswith api_base ''https://'' then ''wss://'' @ drop (length ''https://'') api_base
             else if startswith api_base ''http://'' then ''ws://'' @ drop (length ''http://'') api_base
             else if startswith api_base ''ws://'' \<or> startswith api_base ''wss://'' then api_base
             else ''ws://'' @ api_base)
      in ws_base @ ''/ingest?room='' @ room @ ''&player='' @ player)"

text \<open>The path and query that every variant appends to the rewritten base.\<close>

definition ingest :: "string \<Rightarrow> string \<Rightarrow> string" where
  "ingest room player = ''/ingest?room='' @ room @ ''&player='' @ player"


lemma startswith_append: "startswith (p @ s) p"
  by (simp add: startswith_def)

lemma startswith_split: "startswith s p \<Longrightarrow> s = p @ drop (length p) s"
  unfolding startswith_def by (metis append_take_drop_id)

lemma rstrip_keeps_prefix:
  "\<exists>c \<in> set rest. c \<notin> set chars \<Longrightarrow> rstrip (p @ rest) chars = p @ rstrip rest chars"
  by (auto simp: rstrip_def dropWhile_append)

lemma http_not_https:
  assumes "startswith s ''http://''" shows "\<not> startswith s ''https://''"
proof
  assume "startswith s ''https://''"
  then obtain u where u: "s = ''https://'' @ u" using startswith_split by blast
  from assms obtain t where t: "s = ''http://'' @ t" using startswith_split by blast
  from u t have "''http://'' @ t = ''https://'' @ u" by simp
  then show False by simp
qed

lemma ws_form:
  "\<exists>host. build_ws_url api_base room player = ''ws://'' @ host @ ingest room player
        \<or> build_ws_url api_base room player = ''wss://'' @ host @ ingest room player"
proof -
  let ?b = "rstrip api_base ''/''"
  consider (a) "startswith ?b ''https://''"
    | (b) "\<not> startswith ?b ''https://''" "startswith ?b ''http://''"
    | (c) "\<not> startswith ?b ''https://''" "\<not> startswith ?b ''http://''" "startswith ?b ''ws://''"
    | (d) "\<not> startswith ?b ''https://''" "\<not> startswith ?b ''http://''" "\<not> startswith ?b ''ws://''"
          "startswith ?b ''wss://''"
    | (e) "\<not> startswith ?b ''https://''" "\<not> startswith ?b ''http://''" "\<not> startswith ?b ''ws://''"
          "\<not> startswith ?b ''wss://''"
    by blast
  then show ?thesis
  proof cases
    case a
    then show ?thesis by (simp add: build_ws_url_def ingest_def)
  next
    case b
    then show ?thesis by (simp add: build_ws_url_def ingest_def)
  next
    case c
    from c(3) obtain t where "?b = ''ws://'' @ t" using startswith_split by blast
    with c show ?thesis by (simp add: build_ws_url_def ingest_def Let_def)
  next
    case d
    from d(4) obtain t where "?b = ''wss://'' @ t" using startswith_split by blast
    with d show ?thesis by (simp add: build_ws_url_def ingest_def Let_def)
  next
    case e
    then show ?thesis by (simp add: build_ws_url_def ingest_def)
  qed
qed

text \<open>
  A base that is only a scheme loses the slashes of the scheme itself: \<open>https://\<close> is
  stripped to \<open>https:\<close>, which starts with none of the four prefixes, so \<open>ws://\<close> is put
  in front of it and \<open>https://\<close> is not replaced by \<open>wss://\<close>; likewise \<open>wss://\<close> does not
  pass through.
\<close>

theorem build_ws_url_bare_scheme:
  "build_ws_url ''https://'' ''ROOM'' ''p1'' = ''ws://https:/ingest?room=ROOM&player=p1''
   \<and> build_ws_url ''https://'' ''ROOM'' ''p1'' \<noteq> ''wss://'' @ ingest ''ROOM'' ''p1''
   \<and> build_ws_url ''wss://'' ''ROOM'' ''p1'' = ''ws://wss:/ingest?room=ROOM&player=p1''
   \<and> build_ws_url_windows ''https://'' ''ROOM'' ''p1'' = ''ws://https:/ingest?room=ROOM&player=p1''
   \<and> build_ws_url_mac ''https://'' ''ROOM'' ''p1'' = ''ws://https:/ingest?room=ROOM&player=p1''"
  by (simp add: build_ws_url_def build_ws_url_windows_def build_ws_url_mac_def rstrip_def
      startswith_def ingest_def)

text \<open>
  C9, amended. For every base, \<open>build_ws_url\<close> returns \<open>ws://\<close> or \<open>wss://\<close>, a host part and
  \<open>/ingest?room={room}&player={player}\<close>. The scheme is decided on the base with its trailing
  slashes stripped: a leading \<open>https://\<close> is replaced by \<open>wss://\<close>, a leading \<open>http://\<close>
  by \<open>ws://\<close>, a base that starts with \<open>ws://\<close> or \<open>wss://\<close> is passed through as
  stripped, and any other stripped base has \<open>ws://\<close> put in front of it. Said of the base
  as given: whenever something other than slashes follows the scheme, the result is the
  rewritten scheme, the rest without its trailing slashes and the ingest suffix. The
  Windows and macOS variants return the same string.
\<close>

theorem build_ws_url_scheme:
  "(\<exists>host. build_ws_url api_base room player = ''ws://'' @ host @ ingest room player
        \<or> build_ws_url api_base room player = ''wss://'' @ host @ ingest room player)
   \<and> (startswith (rstrip api_base ''/'') ''https://'' \<longrightarrow>
        build_ws_url api_base room player
          = ''wss://'' @ drop (length ''https://'') (rstrip api_base ''/'') @ ingest room player)
   \<and> (startswith (rstrip api_base ''/'') ''http://'' \<longrightarrow>
        build_ws_url api_base room player
          = ''ws://'' @ drop (length ''http://'') (rstrip api_base ''/'') @ ingest room player)
   \<and> (startswith (rstrip api_base ''/'') ''ws://'' \<or> startswith (rstrip api_base ''/'') ''wss://'' \<longrightarrow>
        build_ws_url api_base room player = rstrip api_base ''/'' @ ingest room player)
   \<and> (\<not> startswith (rstrip api_base ''/'') ''https://''
        \<and> \<not> startswith (rstrip api_base ''/'') ''http://''
        \<and> \<not> startswith (rstrip api_base ''/'') ''ws://''
        \<and> \<not> startswith (rstrip api_base ''/'') ''wss://'' \<longrightarrow>
        build_ws_url api_base room player = ''ws://'' @ rstrip api_base ''/'' @ ingest room player)
   \<and> ((\<exists>c \<in> set rest. c \<noteq> CHR ''/'') \<longrightarrow>
        build_ws_url (''https://'' @ rest) room player = ''wss://'' @ rstrip rest ''/'' @ ingest room player
      \<and> build_ws_url (''http://'' @ rest) room player = ''ws://'' @ rstrip rest ''/'' @ ingest room player
      \<and> build_ws_url (''ws://'' @ rest) room player = ''ws://'' @ rstrip rest ''/'' @ ingest room player
      \<and> build_ws_url (''wss://'' @ rest) room player = ''wss://'' @ rstrip rest ''/'' @ ingest room player)
   \<and> build_ws_url_windows api_base room player = build_ws_url api_base room player
   \<and> build_ws_url_mac api_base room player = build_ws_url api_base room player"
proof -
  let ?b = "rstrip api_base ''/''"
  have p1: "startswith ?b ''https://'' \<longrightarrow>
        build_ws_url api_base room player
          = ''wss://'' @ drop (length ''https://'') ?b @ ingest room player"
    by (simp add: build_ws_url_def ingest_def)
  have p2: "startswith ?b ''http://'' \<longrightarrow>
        build_ws_url api_base room player
          = ''ws://'' @ drop (length ''http://'') ?b @ ingest room player"
    using http_not_https [of ?b] by (simp add: build_ws_url_def ingest_def)
  have ws_not: "\<not> startswith s ''https://'' \<and> \<not> startswith s ''http://''"
    if "startswith s ''ws://'' \<or> startswith s ''wss://''" for s
  proof -
    from that obtain t where t: "s = ''ws://'' @ t \<or> s = ''wss://'' @ t"
      using startswith_split by blast
    have "False" if "startswith s ''https://''"
    proof -
      from that obtain u where "s = ''https://'' @ u" using startswith_split by blast
      with t show False by auto
    qed
    moreover have "False" if "startswith s ''http://''"
    proof -
      from that obtain u where "s = ''http://'' @ u" using startswith_split by blast
      with t show False by auto
    qed
    ultimately show ?thesis by blast
  qed
  have p3: "startswith ?b ''ws://'' \<or> startswith ?b ''wss://'' \<longrightarrow>
        build_ws_url api_base room player = ?b @ ingest room player"
    using ws_not [of ?b] by (auto simp: build_ws_url_def ingest_def Let_def)
  have p4: "build_ws_url (''https://'' @ rest) room player = ''wss://'' @ rstrip rest ''/'' @ ingest room player
      \<and> build_ws_url (''http://'' @ rest) room player = ''ws://'' @ rstrip rest ''/'' @ ingest room player
      \<and> build_ws_url (''ws://'' @ rest) room player = ''ws://'' @ rstrip rest ''/'' @ ingest room player
      \<and> build_ws_url (''wss://'' @ rest) room player = ''wss://'' @ rstrip rest ''/'' @ ingest room player"
    if "\<exists>c \<in> set rest. c \<noteq> CHR ''/''"
  proof -
    from that have ne: "\<exists>c \<in> set rest. c \<notin> set ''/''" by simp
    have r: "rstrip (p @ rest) ''/'' = p @ rstrip rest ''/''" for p
      using ne by (rule rstrip_keeps_prefix)
    have a: "build_ws_url (''https://'' @ rest) room player
               = ''wss://'' @ rstrip rest ''/'' @ ingest room player"
      unfolding build_ws_url_def r by (simp add: startswith_def ingest_def)
    have b: "build_ws_url (''http://'' @ rest) room player
               = ''ws://'' @ rstrip rest ''/'' @ ingest room player"
      unfolding build_ws_url_def r by (simp add: startswith_def ingest_def)
    have c: "build_ws_url (''ws://'' @ rest) room player
               = ''ws://'' @ rstrip rest ''/'' @ ingest room player"
      unfolding build_ws_url_def r by (simp add: startswith_def ingest_def)
    have d: "build_ws_url (''wss://'' @ rest) room player
               = ''wss://'' @ rstrip rest ''/'' @ ingest room player"
      unfolding build_ws_url_def r by (simp add: startswith_def ingest_def)
    from a b c d show ?thesis by blast
  qed
  have p7: "\<not> startswith ?b ''https://'' \<and> \<not> startswith ?b ''http://''
        \<and> \<not> startswith ?b ''ws://'' \<and> \<not> startswith ?b ''wss://'' \<longrightarrow>
        build_ws_url api_base room player = ''ws://'' @ ?b @ ingest room player"
    by (simp add: build_ws_url_def ingest_def)
  have p5: "build_ws_url_windows api_base room player = build_ws_url api_base room player"
    by (simp add: build_ws_url_windows_def build_ws_url_def)
  have p6: "build_ws_url_mac api_base room player = build_ws_url api_base room player"
    by (simp add: build_ws_url_mac_def build_ws_url_def)
  from ws_form [of api_base room player] p1 p2 p3 p7 p4 p5 p6 show ?thesis by blast
qed

theorem build_ws_url_scheme_witness:
  "build_ws_url ''https://www.vpinleaders.com/'' ''ROOM'' ''p1''
     = ''wss://www.vpinleaders.com/ingest?room=ROOM&player=p1''
   \<and> build_ws_url ''http://host:8000'' ''ROOM'' ''p2'' = ''ws://host:8000/ingest?room=ROOM&player=p2''
   \<and> build_ws_url ''wss://host//'' ''ROOM'' ''p2'' = ''wss://host/ingest?room=ROOM&player=p2''"
proof -
  have s1: "rstrip ''https://www.vpinleaders.com/'' ''/'' = ''https://www.vpinleaders.com''"
    by (simp add: rstrip_def)
  have s2: "rstrip ''http://host:8000'' ''/'' = ''http://host:8000''"
    by (simp add: rstrip_def)
  have s3: "rstrip ''wss://host//'' ''/'' = ''wss://host''"
    by (simp add: rstrip_def)
  show ?thesis
    using build_ws_url_scheme [of "''https://www.vpinleaders.com/''" "''ROOM''" "''p1''" "''x''"]
      build_ws_url_scheme [of "''http://host:8000''" "''ROOM''" "''p2''" "''x''"]
      build_ws_url_scheme [of "''wss://host//''" "''ROOM''" "''p2''" "''x''"]
    unfolding s1 s2 s3 by (simp add: startswith_def ingest_def)
qed

section \<open>Downscaling a frame\<close>

subsection \<open>Python floats\<close>

text \<open>
  A Python float is an IEEE 754 binary64 number. A finite one is modelled by the
  rational it denotes. Every operation on floats returns the nearest double of the exact
  result, ties going to the even significand. \<open>rne\<close> rounds a rational to the nearest
  integer, ties to even.
\<close>

definition rne :: "rat \<Rightarrow> int" where
  "rne q =
     (let f = \<lfloor>q\<rfloor>; d = q - of_int f
      in if d < 1 / 2 then f else if 1 / 2 < d then f + 1 else if even f then f else f + 1)"

text \<open>
  The nearest double of a non-negative rational. Below \<open>2^53\<close> the value is doubled
  until it reaches \<open>[2^52, 2^53)\<close>, rounded to an integer there and scaled back; it is
  doubled at most 1074 times, the spacing of the subnormal numbers being \<open>2^-1074\<close>. From
  \<open>2^53\<close> on it is halved until it is below \<open>2^53\<close>, rounded and scaled back.
\<close>

fun up :: "nat \<Rightarrow> rat \<Rightarrow> rat" where
  "up 0 x = of_int (rne x)"
| "up (Suc k) x = (if 2 ^ 52 \<le> x then of_int (rne x) else up k (2 * x) / 2)"

function down :: "rat \<Rightarrow> rat" where
  "down x = (if x < 2 ^ 53 then of_int (rne x) else 2 * down (x / 2))"
  by pat_completeness auto
termination
proof (relation "measure (\<lambda>x. nat \<lfloor>x\<rfloor>)")
  show "wf (measure (\<lambda>x::rat. nat \<lfloor>x\<rfloor>))" by simp
next
  fix x :: rat
  assume "\<not> x < 2 ^ 53"
  then have x: "2 ^ 53 \<le> x" by simp
  then have "x / 2 \<le> x - 1" by simp
  then have "\<lfloor>x / 2\<rfloor> \<le> \<lfloor>x - 1\<rfloor>" by (rule floor_mono)
  then have a: "\<lfloor>x / 2\<rfloor> < \<lfloor>x\<rfloor>" by simp
  from x have "(1::rat) \<le> x" by simp
  then have "1 \<le> \<lfloor>x\<rfloor>" by (simp add: le_floor_iff)
  with a show "(x / 2, x) \<in> measure (\<lambda>x. nat \<lfloor>x\<rfloor>)" by simp
qed

declare down.simps [simp del]


lemma rne_of_int [simp]: "rne (of_int n) = n"
  by (simp add: rne_def)

lemma rne_mono: assumes "p \<le> q" shows "rne p \<le> rne q"
proof (cases "\<lfloor>p\<rfloor> = \<lfloor>q\<rfloor>")
  case True
  with assms show ?thesis by (auto simp: rne_def Let_def)
next
  case False
  with assms have lt: "\<lfloor>p\<rfloor> < \<lfloor>q\<rfloor>" using floor_mono [OF assms] by linarith
  have "rne p \<le> \<lfloor>p\<rfloor> + 1" by (simp add: rne_def Let_def)
  moreover have "\<lfloor>q\<rfloor> \<le> rne q" by (simp add: rne_def Let_def)
  ultimately show ?thesis using lt by linarith
qed

lemma rne_ge_int: "of_int n \<le> q \<Longrightarrow> n \<le> rne q"
  using rne_mono [of "of_int n" q] by simp

lemma rne_le_int: "q \<le> of_int n \<Longrightarrow> rne q \<le> n"
  using rne_mono [of q "of_int n"] by simp


lemma up_rne: "2 ^ 52 \<le> x \<Longrightarrow> up k x = of_int (rne x)"
  by (cases k) simp_all

lemma up_nonneg: "0 \<le> x \<Longrightarrow> 0 \<le> up k x"
proof (induction k arbitrary: x)
  case 0
  then show ?case using rne_ge_int [of 0 x] by simp
next
  case (Suc k)
  then show ?case using rne_ge_int [of 0 x] by simp
qed

lemma up_le: "x \<le> 2 ^ 53 \<Longrightarrow> up k x \<le> 2 ^ 53"
proof (induction k arbitrary: x)
  case 0
  then have "rne x \<le> 2 ^ 53" using rne_le_int [of x "2 ^ 53"] by simp
  then have "(of_int (rne x) :: rat) \<le> of_int (2 ^ 53)" by (simp only: of_int_le_iff)
  then show ?case by simp
next
  case (Suc k)
  show ?case
  proof (cases "2 ^ 52 \<le> x")
    case True
    from Suc.prems have "rne x \<le> 2 ^ 53" using rne_le_int [of x "2 ^ 53"] by simp
    then have "(of_int (rne x) :: rat) \<le> of_int (2 ^ 53)" by (simp only: of_int_le_iff)
    with True show ?thesis by simp
  next
    case False
    then have "2 * x \<le> 2 ^ 53" by simp
    then have "up k (2 * x) \<le> 2 ^ 53" by (rule Suc.IH)
    with False show ?thesis by simp
  qed
qed

lemma up_le_half: "x < 2 ^ 52 \<Longrightarrow> up (Suc k) x \<le> 2 ^ 52"
proof -
  assume a: "x < 2 ^ 52"
  then have "2 * x \<le> 2 ^ 53" by simp
  then have "up k (2 * x) \<le> 2 ^ 53" by (rule up_le)
  with a show ?thesis by simp
qed

lemma rne_ge_52: "2 ^ 52 \<le> x \<Longrightarrow> (2 ^ 52 :: rat) \<le> of_int (rne x)"
proof -
  assume "2 ^ 52 \<le> x"
  then have "2 ^ 52 \<le> rne x" using rne_ge_int [of "2 ^ 52" x] by simp
  then have "(of_int (2 ^ 52) :: rat) \<le> of_int (rne x)" by (simp only: of_int_le_iff)
  then show ?thesis by simp
qed

lemma up_mono: "x \<le> y \<Longrightarrow> up k x \<le> up k y"
proof (induction k arbitrary: x y)
  case 0
  then show ?case by (simp add: rne_mono)
next
  case (Suc k)
  show ?case
  proof (cases "2 ^ 52 \<le> x")
    case True
    with Suc.prems have "2 ^ 52 \<le> y" by simp
    with True Suc.prems show ?thesis by (simp add: rne_mono)
  next
    case False
    note xs = False
    show ?thesis
    proof (cases "2 ^ 52 \<le> y")
      case True
      from xs have "x < 2 ^ 52" by simp
      then have "up (Suc k) x \<le> 2 ^ 52" by (rule up_le_half)
      also have "\<dots> \<le> of_int (rne y)" using True by (rule rne_ge_52)
      finally show ?thesis using True by simp
    next
      case False
      from Suc.prems have "2 * x \<le> 2 * y" by simp
      then have "up k (2 * x) \<le> up k (2 * y)" by (rule Suc.IH)
      with xs False show ?thesis by simp
    qed
  qed
qed

lemma down_ge: "2 ^ 52 \<le> x \<Longrightarrow> 2 ^ 52 \<le> down x"
proof (induction x rule: down.induct)
  case (1 x)
  show ?case
  proof (cases "x < 2 ^ 53")
    case True
    then have "down x = of_int (rne x)" by (simp add: down.simps [of x])
    moreover have "2 ^ 52 \<le> (of_int (rne x) :: rat)" using "1.prems" by (rule rne_ge_52)
    ultimately show ?thesis by simp
  next
    case False
    then have "2 ^ 52 \<le> x / 2" by simp
    with "1.IH" False have "2 ^ 52 \<le> down (x / 2)" by simp
    with False show ?thesis by (simp add: down.simps [of x])
  qed
qed

lemma down_mono: "2 ^ 52 \<le> x \<Longrightarrow> x \<le> y \<Longrightarrow> down x \<le> down y"
proof (induction y arbitrary: x rule: down.induct)
  case (1 y)
  show ?case
  proof (cases "y < 2 ^ 53")
    case True
    with "1.prems" have "x < 2 ^ 53" by simp
    with True "1.prems" show ?thesis
      by (simp add: down.simps [of x] down.simps [of y] rne_mono)
  next
    case False
    note yl = False
    then have y2: "2 ^ 52 \<le> y / 2" by simp
    show ?thesis
    proof (cases "x < 2 ^ 53")
      case True
      then have "rne x \<le> 2 ^ 53" using rne_le_int [of x "2 ^ 53"] by simp
      then have "(of_int (rne x) :: rat) \<le> of_int (2 ^ 53)" by (simp only: of_int_le_iff)
      then have a: "down x \<le> 2 ^ 53" using True by (simp add: down.simps [of x])
      from y2 have "2 ^ 52 \<le> down (y / 2)" by (rule down_ge)
      then have "2 ^ 53 \<le> down y" using yl by (simp add: down.simps [of y])
      with a show ?thesis by simp
    next
      case False
      then have x2: "2 ^ 52 \<le> x / 2" by simp
      from "1.prems" have "x / 2 \<le> y / 2" by simp
      with "1.IH" yl x2 have "down (x / 2) \<le> down (y / 2)" by simp
      with False yl show ?thesis by (simp add: down.simps [of x] down.simps [of y])
    qed
  qed
qed

definition nearest :: "rat \<Rightarrow> rat" where
  "nearest x = (if x < 2 ^ 53 then up 1074 x else down x)"

lemma nearest_nonneg: "0 \<le> x \<Longrightarrow> 0 \<le> nearest x"
proof (cases "x < 2 ^ 53")
  case True
  assume "0 \<le> x"
  then have "0 \<le> up 1074 x" by (rule up_nonneg)
  with True show ?thesis by (simp add: nearest_def del: up.simps)
next
  case False
  then have "2 ^ 52 \<le> x" by simp
  then have "2 ^ 52 \<le> down x" by (rule down_ge)
  with False show ?thesis by (simp add: nearest_def)
qed

lemma nearest_mono: assumes "x \<le> y" shows "nearest x \<le> nearest y"
proof (cases "y < 2 ^ 53")
  case True
  with assms have "x < 2 ^ 53" by simp
  moreover from assms have "up 1074 x \<le> up 1074 y" by (rule up_mono)
  ultimately show ?thesis using True by (simp add: nearest_def del: up.simps)
next
  case False
  note yl = False
  show ?thesis
  proof (cases "x < 2 ^ 53")
    case True
    then have "x \<le> 2 ^ 53" by simp
    then have "up 1074 x \<le> 2 ^ 53" by (rule up_le)
    moreover from yl have "2 ^ 52 \<le> y / 2" by simp
    then have "2 ^ 52 \<le> down (y / 2)" by (rule down_ge)
    then have "2 ^ 53 \<le> down y" using yl by (simp add: down.simps [of y])
    ultimately show ?thesis using True yl by (simp add: nearest_def)
  next
    case False
    then have "2 ^ 52 \<le> x" by simp
    then have "down x \<le> down y" using assms by (rule down_mono)
    with False yl show ?thesis by (simp add: nearest_def)
  qed
qed

text \<open>
  The nearest double of any rational, by sign and magnitude, and the conversion to a
  double: a rounded value of magnitude \<open>2^1024\<close> or more is an infinity.
\<close>

definition round_double :: "rat \<Rightarrow> rat" where
  "round_double x = (if 0 \<le> x then nearest x else - nearest (- x))"

datatype double = Finite rat | PosInf | NegInf

definition to_double :: "rat \<Rightarrow> double" where
  "to_double x =
     (let r = round_double x
      in if 2 ^ 1024 \<le> r then PosInf else if r \<le> - (2 ^ 1024) then NegInf else Finite r)"

text \<open>
  The float operations the resize functions use. \<open>a / b\<close> on integers is the correctly
  rounded quotient; it raises \<open>ZeroDivisionError\<close> for \<open>b = 0\<close> and \<open>OverflowError\<close> when
  the quotient is too large for a float. \<open>n * scale\<close> converts the integer to a float
  (\<open>OverflowError\<close> when too large) and multiplies, possibly to an infinity. \<open>int(x)\<close>
  truncates towards zero and raises \<open>OverflowError\<close> on an infinity.
\<close>

definition py_truediv :: "int \<Rightarrow> int \<Rightarrow> exn + rat" where
  "py_truediv a b =
     (if b = 0 then Inl ZeroDivisionError
      else case to_double (of_int a / of_int b) of
             Finite r \<Rightarrow> Inr r
           | _ \<Rightarrow> Inl OverflowError)"

definition float_of_int :: "int \<Rightarrow> exn + rat" where
  "float_of_int n = (case to_double (of_int n) of Finite r \<Rightarrow> Inr r | _ \<Rightarrow> Inl OverflowError)"

definition float_mul :: "rat \<Rightarrow> rat \<Rightarrow> double" where
  "float_mul a b = to_double (a * b)"

definition py_int :: "double \<Rightarrow> exn + int" where
  "py_int d =
     (case d of
        Finite r \<Rightarrow> Inr (if 0 \<le> r then \<lfloor>r\<rfloor> else \<lceil>r\<rceil>)
      | _ \<Rightarrow> Inl OverflowError)"

definition int_times_float :: "nat \<Rightarrow> rat \<Rightarrow> exn + int" where
  "int_times_float n scale =
     (case float_of_int (int n) of
        Inl e \<Rightarrow> Inl e
      | Inr nf \<Rightarrow> py_int (float_mul nf scale))"

text \<open>
\<open>scale = min(maxw / w, maxh / h, 1.0)\<close>, the quotients evaluated from left to right.
\<close>

definition scale_of :: "nat \<Rightarrow> nat \<Rightarrow> int \<Rightarrow> int \<Rightarrow> exn + rat" where
  "scale_of w h maxw maxh =
     (case py_truediv maxw (int w) of
        Inl e \<Rightarrow> Inl e
      | Inr a \<Rightarrow>
          (case py_truediv maxh (int h) of
             Inl e \<Rightarrow> Inl e
           | Inr b \<Rightarrow> Inr (min a (min b 1))))"

lemma round_double_mono: assumes "x \<le> y" shows "round_double x \<le> round_double y"
proof (cases "0 \<le> x")
  case True
  with assms have "0 \<le> y" by simp
  with True nearest_mono [OF assms] show ?thesis by (simp add: round_double_def)
next
  case False
  note xn = False
  show ?thesis
  proof (cases "0 \<le> y")
    case True
    then have "0 \<le> nearest y" by (rule nearest_nonneg)
    moreover from xn have "0 \<le> nearest (- x)" by (simp add: nearest_nonneg)
    ultimately show ?thesis using xn True by (simp add: round_double_def)
  next
    case False
    from assms have "- y \<le> - x" by simp
    then have "nearest (- y) \<le> nearest (- x)" by (rule nearest_mono)
    with xn False show ?thesis by (simp add: round_double_def)
  qed
qed

lemma up_of_int: "0 \<le> n \<Longrightarrow> n < 2 ^ 53 \<Longrightarrow> up k (of_int n) = of_int n"
proof (induction k arbitrary: n)
  case 0
  then show ?case by simp
next
  case (Suc k)
  show ?case
  proof (cases "(2 ^ 52 :: rat) \<le> of_int n")
    case True
    then show ?thesis by simp
  next
    case False
    then have "(of_int n :: rat) < of_int (2 ^ 52)" by simp
    then have "n < 2 ^ 52" by (simp only: of_int_less_iff)
    then have b: "2 * n < 2 ^ 53" by simp
    from Suc.prems have a: "0 \<le> 2 * n" by simp
    from Suc.IH [OF a b] have "up k (2 * of_int n) = 2 * of_int n" by simp
    with False show ?thesis by simp
  qed
qed

lemma round_double_of_nat: "n < 2 ^ 53 \<Longrightarrow> round_double (of_nat n) = of_nat n"
proof -
  assume a: "n < 2 ^ 53"
  then have "int n < 2 ^ 53" by (metis of_nat_less_iff of_nat_numeral of_nat_power)
  then have i: "up 1074 (of_int (int n)) = (of_int (int n) :: rat)"
    by (intro up_of_int) simp_all
  from a have "(of_nat n :: rat) < of_nat (2 ^ 53)" by (simp only: of_nat_less_iff)
  then have "(of_nat n :: rat) < 2 ^ 53" by simp
  with i show ?thesis by (simp add: round_double_def nearest_def del: up.simps)
qed

lemma round_double_1: "round_double 1 = 1"
  using round_double_of_nat [of 1] by simp

lemma round_double_0: "round_double 0 = 0"
  using round_double_of_nat [of 0] by simp

lemma up_shift:
  "2 ^ 52 \<le> x * 2 ^ j \<Longrightarrow> x * 2 ^ j < 2 ^ 53 \<Longrightarrow> j \<le> k \<Longrightarrow>
   up k x = of_int (rne (x * 2 ^ j)) / 2 ^ j"
proof (induction j arbitrary: k x)
  case 0
  then show ?case by (simp add: up_rne)
next
  case (Suc j)
  from Suc.prems(3) obtain k' where k: "k = Suc k'" and jk: "j \<le> k'" by (cases k) auto
  have p52: "(0::rat) < 2 ^ 52" by simp
  from p52 Suc.prems(1) have "0 < x * 2 ^ Suc j" by (rule less_le_trans)
  then have xpos: "0 < x" by (simp add: zero_less_mult_iff)
  have "x * 2 \<le> x * 2 ^ Suc j" using xpos by simp
  with Suc.prems(2) have "x * 2 < 2 ^ 53" by simp
  then have xs: "\<not> 2 ^ 52 \<le> x" by simp
  have e: "(2 * x) * 2 ^ j = x * 2 ^ Suc j" by simp
  from Suc.prems(1,2) have "2 ^ 52 \<le> (2 * x) * 2 ^ j" "(2 * x) * 2 ^ j < 2 ^ 53"
    unfolding e by simp_all
  from Suc.IH [OF this jk] have "up k' (2 * x) = of_int (rne (x * 2 ^ Suc j)) / 2 ^ j"
    unfolding e .
  with xs k show ?case by simp
qed

lemma round_double_shift:
  "2 ^ 52 \<le> x * 2 ^ j \<Longrightarrow> x * 2 ^ j < 2 ^ 53 \<Longrightarrow> j \<le> 1074 \<Longrightarrow>
   round_double x = of_int (rne (x * 2 ^ j)) / 2 ^ j"
proof -
  assume a: "2 ^ 52 \<le> x * 2 ^ j" and b: "x * 2 ^ j < 2 ^ 53" and c: "j \<le> 1074"
  have p52: "(0::rat) < 2 ^ 52" by simp
  from p52 a have "0 < x * 2 ^ j" by (rule less_le_trans)
  then have xpos: "0 < x" by (simp add: zero_less_mult_iff)
  have "x * 1 \<le> x * 2 ^ j" using xpos by (intro mult_left_mono) simp_all
  with b have "x < 2 ^ 53" by simp
  with xpos up_shift [OF a b c] show ?thesis
    by (simp add: round_double_def nearest_def del: up.simps)
qed

lemma rne_eqI:
  assumes "of_int n - 1 / 2 < q" and "q < of_int n + 1 / 2"
  shows "rne q = n"
proof (cases "of_int n \<le> q")
  case True
  with assms(2) have f: "\<lfloor>q\<rfloor> = n" by (intro floor_unique) simp_all
  from assms(2) have "q - of_int n < 1 / 2" by simp
  with f show ?thesis by (simp add: rne_def)
next
  case False
  with assms(1) have f: "\<lfloor>q\<rfloor> = n - 1" by (intro floor_unique) simp_all
  from assms(1) have "1 / 2 < q - of_int (n - 1)" by simp
  with f show ?thesis by (simp add: rne_def)
qed

lemma round_double_eqI:
  assumes "2 ^ 52 \<le> x * 2 ^ j" and "x * 2 ^ j < 2 ^ 53" and "j \<le> 1074"
    and "of_int n - 1 / 2 < x * 2 ^ j" and "x * 2 ^ j < of_int n + 1 / 2"
  shows "round_double x = of_int n / 2 ^ j"
  using round_double_shift [OF assms(1-3)] rne_eqI [OF assms(4,5)] by simp

lemma two_thirds: "round_double (1280 / 1920) = 6004799503160661 / 2 ^ 53"
  using round_double_eqI [where x = "1280 / 1920" and j = 53 and n = 6004799503160661]
  by simp

lemma w_1280: "round_double (1920 * (6004799503160661 / 2 ^ 53)) = 1280"
  using round_double_eqI [where x = "1920 * (6004799503160661 / 2 ^ 53)" and j = 42
      and n = "1280 * 2 ^ 42"]
  by simp

lemma h_720: "round_double (1080 * (6004799503160661 / 2 ^ 53)) = 720"
  using round_double_eqI [where x = "1080 * (6004799503160661 / 2 ^ 53)" and j = 43
      and n = "720 * 2 ^ 43"]
  by simp

subsection \<open>The resize functions\<close>

text \<open>
  A frame is a NumPy array of shape \<open>(height, width, 3)\<close>: its two leading dimensions
  and its pixel content, whose type is left open.
\<close>

record 'p frame =
  height :: nat
  width :: nat
  pixels :: 'p

text \<open>
  OpenCV's \<open>cv2.resize(src, (new_w, new_h), interpolation=INTER_AREA)\<close>: an array of
  \<open>new_h\<close> rows and \<open>new_w\<close> columns whose content the interpolation computes, and an
  error when a target dimension is not positive.
\<close>

definition cv2_resize :: "('p \<Rightarrow> nat \<times> nat \<Rightarrow> 'p) \<Rightarrow> 'p frame \<Rightarrow> int \<times> int \<Rightarrow> exn + 'p frame" where
  "cv2_resize inter_area src dsize =
     (case dsize of (new_w, new_h) \<Rightarrow>
        if new_w \<le> 0 \<or> new_h \<le> 0 then Inl Cv2Error
        else Inr \<lparr>height = nat new_h, width = nat new_w,
                  pixels = inter_area (pixels src) (nat new_w, nat new_h)\<rparr>)"

text \<open>
  \<open>resize_to_max\<close> of \<open>streamer_linux.py\<close>: the frame itself when \<open>scale >= 1.0\<close>,
  otherwise the frame resized to \<open>max(2, int(w * scale))\<close> by \<open>max(2, int(h * scale))\<close>.
\<close>

definition resize_to_max ::
  "('p \<Rightarrow> nat \<times> nat \<Rightarrow> 'p) \<Rightarrow> 'p frame \<Rightarrow> int \<Rightarrow> int \<Rightarrow> exn + 'p frame" where
  "resize_to_max inter_area frame_bgr maxw maxh =
     (let h = height frame_bgr; w = width frame_bgr in
      case scale_of w h maxw maxh of
        Inl e \<Rightarrow> Inl e
      | Inr scale \<Rightarrow>
          if scale \<ge> 1 then Inr frame_bgr
          else
            (case int_times_float w scale of
               Inl e \<Rightarrow> Inl e
             | Inr iw \<Rightarrow>
                 (case int_times_float h scale of
                    Inl e \<Rightarrow> Inl e
                  | Inr ih \<Rightarrow> cv2_resize inter_area frame_bgr (max 2 iw, max 2 ih))))"

text \<open>
  \<open>resize_to_max\<close> of \<open>streamer_windows.py\<close> and \<open>resize_if_needed\<close> of
  \<open>streamer_mac.py\<close>: the same computation without the lower bound of 2.
\<close>

definition resize_to_max_windows ::
  "('p \<Rightarrow> nat \<times> nat \<Rightarrow> 'p) \<Rightarrow> 'p frame \<Rightarrow> int \<Rightarrow> int \<Rightarrow> exn + 'p frame" where
  "resize_to_max_windows inter_area frame_bgr maxw maxh =
     (let h = height frame_bgr; w = width frame_bgr in
      case scale_of w h maxw maxh of
        Inl e \<Rightarrow> Inl e
      | Inr scale \<Rightarrow>
          if scale \<ge> 1 then Inr frame_bgr
          else
            (case int_times_float w scale of
               Inl e \<Rightarrow> Inl e
             | Inr new_w \<Rightarrow>
                 (case int_times_float h scale of
                    Inl e \<Rightarrow> Inl e
                  | Inr new_h \<Rightarrow> cv2_resize inter_area frame_bgr (new_w, new_h))))"

definition resize_if_needed ::
  "('p \<Rightarrow> nat \<times> nat \<Rightarrow> 'p) \<Rightarrow> 'p frame \<Rightarrow> int \<Rightarrow> int \<Rightarrow> exn + 'p frame" where
  "resize_if_needed inter_area img_bgr max_width max_height =
     (let h = height img_bgr; w = width img_bgr in
      case scale_of w h max_width max_height of
        Inl e \<Rightarrow> Inl e
      | Inr scale \<Rightarrow>
          if scale \<ge> 1 then Inr img_bgr
          else
            (case int_times_float w scale of
               Inl e \<Rightarrow> Inl e
             | Inr new_w \<Rightarrow>
                 (case int_times_float h scale of
                    Inl e \<Rightarrow> Inl e
                  | Inr new_h \<Rightarrow> cv2_resize inter_area img_bgr (new_w, new_h))))"

text \<open>
An interpolation on frames without content, to run the functions on shapes.
\<close>

definition keep :: "unit \<Rightarrow> nat \<times> nat \<Rightarrow> unit" where
  "keep p dsize = p"

lemma to_double_Finite: "to_double x = Finite r \<Longrightarrow> r = round_double x"
  by (simp add: to_double_def Let_def split: if_splits)

lemma to_double_small:
  "- (2 ^ 53) \<le> x \<Longrightarrow> x \<le> 2 ^ 53 \<Longrightarrow> to_double x = Finite (round_double x)"
proof -
  assume a: "- (2 ^ 53) \<le> x" and b: "x \<le> 2 ^ 53"
  have p: "round_double (2 ^ 53) = 2 ^ 53"
  proof -
    have "nearest (2 ^ 53) = down (2 ^ 53)" by (simp add: nearest_def)
    also have "\<dots> = 2 * down (2 ^ 52)" by (subst down.simps) simp
    also have "down (2 ^ 52) = of_int (rne (2 ^ 52))" by (subst down.simps) simp
    also have "rne (2 ^ 52) = 2 ^ 52" using rne_of_int [of "2 ^ 52"] by simp
    finally show ?thesis by (simp add: round_double_def)
  qed
  have n: "round_double (- (2 ^ 53)) = - (2 ^ 53)"
    using p by (simp add: round_double_def)
  from round_double_mono [OF b] p have u: "round_double x \<le> 2 ^ 53" by simp
  from round_double_mono [OF a] n have l: "- (2 ^ 53) \<le> round_double x" by simp
  have "(2 ^ 53 :: rat) < 2 ^ 1024" by simp
  with u l show ?thesis by (simp add: to_double_def Let_def)
qed

lemma py_truediv_cases:
  "py_truediv a b = Inr r \<Longrightarrow> b \<noteq> 0 \<and> r = round_double (of_int a / of_int b)"
  by (auto simp: py_truediv_def split: if_splits double.splits dest: to_double_Finite)

lemma py_truediv_ge_1:
  assumes "py_truediv a (int n) = Inr r" and "0 < n" and "int n \<le> a"
  shows "1 \<le> r"
proof -
  from py_truediv_cases [OF assms(1)] have r: "r = round_double (of_int a / of_int (int n))" by simp
  from assms(2,3) have "(1::rat) \<le> of_int a / of_int (int n)"
    by (simp add: le_divide_eq)
  from round_double_mono [OF this] show ?thesis by (simp add: r round_double_1)
qed

lemma py_truediv_total:
  assumes "0 < n" and "0 \<le> a" and "a \<le> 2 ^ 53"
  shows "\<exists>r. py_truediv a (int n) = Inr r"
proof -
  have "(of_int a :: rat) \<le> of_int (2 ^ 53)" using assms(3) by (simp only: of_int_le_iff)
  then have a53: "(of_int a :: rat) \<le> 2 ^ 53" by simp
  have a0: "(0::rat) \<le> of_int a" using assms(2) by simp
  have n1: "(1::rat) \<le> of_int (int n)" using assms(1) by simp
  have "of_int a / of_int (int n) \<le> (of_int a :: rat) / 1"
    using a0 n1 by (intro divide_left_mono) simp_all
  with a53 have u: "of_int a / of_int (int n) \<le> (2 ^ 53 :: rat)" by simp
  have "(0::rat) \<le> of_int a / of_int (int n)" using a0 n1 by simp
  moreover have "- (2 ^ 53) \<le> (0::rat)" by simp
  ultimately have l: "- (2 ^ 53) \<le> of_int a / (of_int (int n) :: rat)" by (rule order_trans [rotated])
  from to_double_small [OF l u] assms(1) show ?thesis by (simp add: py_truediv_def)
qed

lemma int_times_float_le:
  assumes "int_times_float n scale = Inr i" and "scale < 1" and "n < 2 ^ 53"
  shows "i \<le> int n"
proof -
  have nn: "(of_int (int n) :: rat) = of_nat n" by simp
  have "(of_nat n :: rat) < of_nat (2 ^ 53)" using assms(3) by (simp only: of_nat_less_iff)
  then have n53: "(of_nat n :: rat) \<le> 2 ^ 53" by simp
  have "(0::rat) \<le> of_nat n" by simp
  moreover have "- (2 ^ 53) \<le> (0::rat)" by simp
  ultimately have "- (2 ^ 53) \<le> (of_nat n :: rat)" by (rule order_trans [rotated])
  from to_double_small [OF this n53] round_double_of_nat [OF assms(3)]
  have f: "float_of_int (int n) = Inr (of_nat n)" by (simp add: float_of_int_def)
  from assms(1) f have p: "py_int (float_mul (of_nat n) scale) = Inr i"
    by (simp add: int_times_float_def)
  then obtain r where d: "to_double (of_nat n * scale) = Finite r"
    and i: "i = (if 0 \<le> r then \<lfloor>r\<rfloor> else \<lceil>r\<rceil>)"
    by (auto simp: py_int_def float_mul_def split: double.splits)
  from to_double_Finite [OF d] have r: "r = round_double (of_nat n * scale)" .
  have "of_nat n * scale \<le> (of_nat n :: rat) * 1"
    using assms(2) by (intro mult_left_mono) simp_all
  then have "of_nat n * scale \<le> (of_nat n :: rat)" by simp
  from round_double_mono [OF this] round_double_of_nat [OF assms(3)]
  have rle: "r \<le> of_nat n" by (simp add: r)
  show ?thesis
  proof (cases "0 \<le> r")
    case True
    from rle have "\<lfloor>r\<rfloor> \<le> \<lfloor>(of_nat n :: rat)\<rfloor>" by (rule floor_mono)
    with True i show ?thesis by simp
  next
    case False
    then have c: "\<lceil>r\<rceil> \<le> 0" by (simp add: ceiling_le_iff)
    from False i have "i = \<lceil>r\<rceil>" by simp
    with c show ?thesis by linarith
  qed
qed


lemma cv2_resize_shape:
  "cv2_resize inter_area src (new_w, new_h) = Inr g \<Longrightarrow>
   int (width g) = new_w \<and> int (height g) = new_h \<and> 0 < new_w \<and> 0 < new_h"
  by (auto simp: cv2_resize_def split: if_splits)

lemma scale_of_le_1: "scale_of w h maxw maxh = Inr s \<Longrightarrow> s \<le> 1"
  by (auto simp: scale_of_def split: sum.splits)

lemma scale_of_def2:
  "scale_of w h maxw maxh = Inr s \<Longrightarrow>
   w \<noteq> 0 \<and> h \<noteq> 0
   \<and> s = min (round_double (of_int maxw / of_nat w)) (min (round_double (of_int maxh / of_nat h)) 1)"
  by (auto simp: scale_of_def split: sum.splits dest!: py_truediv_cases)

lemma scale_of_within:
  assumes "scale_of w h maxw maxh = Inr s" and "int w \<le> maxw" and "int h \<le> maxh"
  shows "1 \<le> s"
proof -
  from assms(1) obtain a b where a: "py_truediv maxw (int w) = Inr a"
    and b: "py_truediv maxh (int h) = Inr b" and s: "s = min a (min b 1)"
    by (auto simp: scale_of_def split: sum.splits)
  from py_truediv_cases [OF a] have w: "0 < w" by simp
  from py_truediv_cases [OF b] have h: "0 < h" by simp
  from py_truediv_ge_1 [OF a w assms(2)] py_truediv_ge_1 [OF b h assms(3)] s show ?thesis by simp
qed

lemma scale_of_overflow:
  assumes "0 < w" and "0 < h"
  shows "(\<exists>s. scale_of w h maxw maxh = Inr s) \<or> scale_of w h maxw maxh = Inl OverflowError"
  using assms
  by (auto simp: scale_of_def py_truediv_def split: sum.splits double.splits)

lemma scale_of_total:
  assumes "0 < w" and "0 < h" and "0 \<le> maxw" and "maxw \<le> 2 ^ 53" and "0 \<le> maxh"
    and "maxh \<le> 2 ^ 53"
  shows "\<exists>s. scale_of w h maxw maxh = Inr s"
proof -
  from py_truediv_total [OF assms(1,3,4)] obtain a where "py_truediv maxw (int w) = Inr a" ..
  moreover from py_truediv_total [OF assms(2,5,6)] obtain b where "py_truediv maxh (int h) = Inr b" ..
  ultimately show ?thesis by (simp add: scale_of_def)
qed

lemma resize_to_max_bound:
  assumes "resize_to_max inter_area f maxw maxh = Inr g"
    and "width f < 2 ^ 53" and "height f < 2 ^ 53"
  shows "width g \<le> max 2 (width f) \<and> height g \<le> max 2 (height f)"
proof -
  from assms(1) obtain s where s: "scale_of (width f) (height f) maxw maxh = Inr s"
    by (auto simp: resize_to_max_def Let_def split: sum.splits)
  show ?thesis
  proof (cases "1 \<le> s")
    case True
    with assms(1) s have "g = f" by (simp add: resize_to_max_def)
    then show ?thesis by simp
  next
    case False
    then have lt: "s < 1" by simp
    from assms(1) s False obtain iw ih where iw: "int_times_float (width f) s = Inr iw"
      and ih: "int_times_float (height f) s = Inr ih"
      and r: "cv2_resize inter_area f (max 2 iw, max 2 ih) = Inr g"
      by (auto simp: resize_to_max_def Let_def split: sum.splits)
    from cv2_resize_shape [OF r]
    have w: "int (width g) = max 2 iw" and h: "int (height g) = max 2 ih" by simp_all
    from int_times_float_le [OF iw lt assms(2)] w have "int (width g) \<le> max 2 (int (width f))"
      by linarith
    moreover from int_times_float_le [OF ih lt assms(3)] h
    have "int (height g) \<le> max 2 (int (height f))" by linarith
    ultimately show ?thesis by linarith
  qed
qed

lemma resize_to_max_windows_bound:
  assumes "resize_to_max_windows inter_area f maxw maxh = Inr g"
    and "width f < 2 ^ 53" and "height f < 2 ^ 53"
  shows "width g \<le> width f \<and> height g \<le> height f"
proof -
  from assms(1) obtain s where s: "scale_of (width f) (height f) maxw maxh = Inr s"
    by (auto simp: resize_to_max_windows_def Let_def split: sum.splits)
  show ?thesis
  proof (cases "1 \<le> s")
    case True
    with assms(1) s have "g = f" by (simp add: resize_to_max_windows_def)
    then show ?thesis by simp
  next
    case False
    then have lt: "s < 1" by simp
    from assms(1) s False obtain iw ih where iw: "int_times_float (width f) s = Inr iw"
      and ih: "int_times_float (height f) s = Inr ih"
      and r: "cv2_resize inter_area f (iw, ih) = Inr g"
      by (auto simp: resize_to_max_windows_def Let_def split: sum.splits)
    from cv2_resize_shape [OF r]
    have w: "int (width g) = iw" and h: "int (height g) = ih" by simp_all
    from int_times_float_le [OF iw lt assms(2)] w have "int (width g) \<le> int (width f)"
      by linarith
    moreover from int_times_float_le [OF ih lt assms(3)] h
    have "int (height g) \<le> int (height f)" by linarith
    ultimately show ?thesis by linarith
  qed
qed

lemma resize_if_needed_eq:
  "resize_if_needed inter_area f maxw maxh = resize_to_max_windows inter_area f maxw maxh"
  by (simp add: resize_if_needed_def resize_to_max_windows_def)

lemma resize_to_max_within:
  assumes "0 < width f" and "0 < height f" and "int (width f) \<le> maxw" and "int (height f) \<le> maxh"
  shows "resize_to_max inter_area f maxw maxh = Inr f
           \<or> resize_to_max inter_area f maxw maxh = Inl OverflowError"
    and "resize_to_max_windows inter_area f maxw maxh = Inr f
           \<or> resize_to_max_windows inter_area f maxw maxh = Inl OverflowError"
proof -
  from scale_of_overflow [OF assms(1,2), of maxw maxh]
  consider s where "scale_of (width f) (height f) maxw maxh = Inr s"
    | "scale_of (width f) (height f) maxw maxh = Inl OverflowError" by blast
  then have "(resize_to_max inter_area f maxw maxh = Inr f
           \<or> resize_to_max inter_area f maxw maxh = Inl OverflowError)
     \<and> (resize_to_max_windows inter_area f maxw maxh = Inr f
           \<or> resize_to_max_windows inter_area f maxw maxh = Inl OverflowError)"
  proof cases
    case 1
    from scale_of_within [OF 1 assms(3,4)] 1 show ?thesis
      by (simp add: resize_to_max_def resize_to_max_windows_def)
  next
    case 2
    then show ?thesis by (simp add: resize_to_max_def resize_to_max_windows_def)
  qed
  then show "resize_to_max inter_area f maxw maxh = Inr f
           \<or> resize_to_max inter_area f maxw maxh = Inl OverflowError"
    and "resize_to_max_windows inter_area f maxw maxh = Inr f
           \<or> resize_to_max_windows inter_area f maxw maxh = Inl OverflowError" by simp_all
qed

lemma resize_to_max_within_double:
  assumes "0 < width f" and "0 < height f" and "int (width f) \<le> maxw" and "int (height f) \<le> maxh"
    and "maxw \<le> 2 ^ 53" and "maxh \<le> 2 ^ 53"
  shows "resize_to_max inter_area f maxw maxh = Inr f"
    and "resize_to_max_windows inter_area f maxw maxh = Inr f"
proof -
  from assms(3) have mw: "0 \<le> maxw" by simp
  from assms(4) have mh: "0 \<le> maxh" by simp
  from scale_of_total [OF assms(1,2) mw assms(5) mh assms(6)]
  obtain s where s: "scale_of (width f) (height f) maxw maxh = Inr s" ..
  from scale_of_within [OF s assms(3,4)] s
  show "resize_to_max inter_area f maxw maxh = Inr f"
    and "resize_to_max_windows inter_area f maxw maxh = Inr f"
    by (simp_all add: resize_to_max_def resize_to_max_windows_def)
qed

text \<open>
  The functions evaluated. A 1920 by 1080 frame with bounds 1280 by 720 has scale
  \<open>0.6666666666666666\<close> and comes out 1280 by 720. A 1680 by 1050 frame with bounds 960
  by 540 has scale \<open>0.5142857142857142\<close>; \<open>1680 * scale\<close> is \<open>863.9999999999999\<close>, so the
  Linux variant returns 863 by 540. A 49 by 49 frame with bounds 1 by 1 has \<open>49 * scale =
  0.9999999999999999\<close>, the target is 0 by 0 and \<open>cv2.resize\<close> raises.
\<close>

lemma py_truediv_eq:
  assumes "b \<noteq> 0" and "- (2 ^ 53) \<le> (of_int a / of_int b :: rat)"
    and "(of_int a / of_int b :: rat) \<le> 2 ^ 53"
  shows "py_truediv a b = Inr (round_double (of_int a / of_int b))"
  using to_double_small [OF assms(2,3)] assms(1) by (simp add: py_truediv_def)

lemma int_times_float_eq:
  assumes "n < 2 ^ 53" and "- (2 ^ 53) \<le> of_nat n * scale" and "of_nat n * scale \<le> 2 ^ 53"
    and "round_double (of_nat n * scale) = r" and "0 \<le> r" and "of_int i \<le> r"
    and "r < of_int i + 1"
  shows "int_times_float n scale = Inr i"
proof -
  have "(of_nat n :: rat) < of_nat (2 ^ 53)" using assms(1) by (simp only: of_nat_less_iff)
  then have n53: "(of_nat n :: rat) \<le> 2 ^ 53" by simp
  have "(0::rat) \<le> of_nat n" by simp
  moreover have "- (2 ^ 53) \<le> (0::rat)" by simp
  ultimately have "- (2 ^ 53) \<le> (of_nat n :: rat)" by (rule order_trans [rotated])
  from to_double_small [OF this n53] round_double_of_nat [OF assms(1)]
  have f: "float_of_int (int n) = Inr (of_nat n)" by (simp add: float_of_int_def)
  have fl: "\<lfloor>r\<rfloor> = i" using assms(6,7) by (rule floor_unique)
  from to_double_small [OF assms(2,3)] assms(4,5) f fl show ?thesis
    by (simp add: int_times_float_def float_mul_def py_int_def)
qed

lemma round_half: "round_double (1 / 2) = 1 / 2"
  using round_double_eqI [where x = "1 / 2" and j = 53 and n = "2 ^ 52"] by simp

lemma scale_1_4_10_2: "scale_of 1 4 10 2 = Inr (1 / 2)"
proof -
  have a: "py_truediv 10 (int 1) = Inr 10"
    using py_truediv_eq [of 1 10] round_double_of_nat [of 10] by simp
  have b: "py_truediv 2 (int 4) = Inr (1 / 2)"
    using py_truediv_eq [of 4 2] round_half by simp
  show ?thesis using a b by (simp add: scale_of_def)
qed

lemma times_1_half: "int_times_float 1 (1 / 2) = Inr 0"
  using int_times_float_eq [of 1 "1 / 2" "1 / 2" 0] round_half by simp

lemma times_4_half: "int_times_float 4 (1 / 2) = Inr 2"
  using int_times_float_eq [of 4 "1 / 2" 2 2] round_double_of_nat [of 2] by simp

lemma resize_1_4:
  "resize_to_max keep \<lparr>height = 4, width = 1, pixels = ()\<rparr> 10 2
     = Inr \<lparr>height = 2, width = 2, pixels = ()\<rparr>"
  "resize_to_max_windows keep \<lparr>height = 4, width = 1, pixels = ()\<rparr> 10 2 = Inl Cv2Error"
  using scale_1_4_10_2 times_1_half times_4_half
  by (simp_all add: resize_to_max_def resize_to_max_windows_def cv2_resize_def keep_def)

lemma scale_two_thirds: "scale_of 1920 1080 1280 720 = Inr (6004799503160661 / 2 ^ 53)"
proof -
  have e: "(720 / 1080 :: rat) = 1280 / 1920" by simp
  have a: "py_truediv 1280 (int 1920) = Inr (6004799503160661 / 2 ^ 53)"
    using py_truediv_eq [of 1920 1280] two_thirds by simp
  have b: "py_truediv 720 (int 1080) = Inr (6004799503160661 / 2 ^ 53)"
    using py_truediv_eq [of 1080 720] two_thirds unfolding e by simp
  show ?thesis using a b by (simp add: scale_of_def)
qed

lemma times_1920: "int_times_float 1920 (6004799503160661 / 2 ^ 53) = Inr 1280"
  using int_times_float_eq [of 1920 "6004799503160661 / 2 ^ 53" 1280 1280] w_1280 by simp

lemma times_1080: "int_times_float 1080 (6004799503160661 / 2 ^ 53) = Inr 720"
  using int_times_float_eq [of 1080 "6004799503160661 / 2 ^ 53" 720 720] h_720 by simp

lemma resize_1920_1080:
  "resize_to_max keep \<lparr>height = 1080, width = 1920, pixels = ()\<rparr> 1280 720
     = Inr \<lparr>height = 720, width = 1280, pixels = ()\<rparr>"
  "resize_to_max_windows keep \<lparr>height = 1080, width = 1920, pixels = ()\<rparr> 1280 720
     = Inr \<lparr>height = 720, width = 1280, pixels = ()\<rparr>"
  "resize_if_needed keep \<lparr>height = 1080, width = 1920, pixels = ()\<rparr> 1280 720
     = Inr \<lparr>height = 720, width = 1280, pixels = ()\<rparr>"
  using scale_two_thirds times_1920 times_1080
  by (simp_all add: resize_to_max_def resize_to_max_windows_def resize_if_needed_def
      cv2_resize_def keep_def)

lemma round_18_35: "round_double (540 / 1050) = 4632273902438224 / 2 ^ 53"
  using round_double_eqI [where x = "540 / 1050" and j = 53 and n = 4632273902438224] by simp

lemma scale_1680: "scale_of 1680 1050 960 540 = Inr (4632273902438224 / 2 ^ 53)"
proof -
  have a: "py_truediv 960 (int 1680) = Inr (round_double (960 / 1680))"
    using py_truediv_eq [of 1680 960] by simp
  have b: "py_truediv 540 (int 1050) = Inr (4632273902438224 / 2 ^ 53)"
    using py_truediv_eq [of 1050 540] round_18_35 by simp
  have "(540 / 1050 :: rat) \<le> 960 / 1680" by simp
  from round_double_mono [OF this] have "4632273902438224 / 2 ^ 53 \<le> round_double (960 / 1680)"
    by (simp only: round_18_35)
  then show ?thesis using a b by (simp add: scale_of_def min_def)
qed

lemma times_1680: "int_times_float 1680 (4632273902438224 / 2 ^ 53) = Inr 863"
proof -
  have r: "round_double (1680 * (4632273902438224 / 2 ^ 53)) = (864 * 2 ^ 43 - 1) / 2 ^ 43"
    using round_double_eqI [where x = "1680 * (4632273902438224 / 2 ^ 53)" and j = 43
        and n = "864 * 2 ^ 43 - 1"] by simp
  from int_times_float_eq [of 1680 "4632273902438224 / 2 ^ 53" "(864 * 2 ^ 43 - 1) / 2 ^ 43" 863] r
  show ?thesis by simp
qed

lemma times_1050: "int_times_float 1050 (4632273902438224 / 2 ^ 53) = Inr 540"
proof -
  have r: "round_double (1050 * (4632273902438224 / 2 ^ 53)) = 540"
    using round_double_eqI [where x = "1050 * (4632273902438224 / 2 ^ 53)" and j = 43
        and n = "540 * 2 ^ 43"] by simp
  from int_times_float_eq [of 1050 "4632273902438224 / 2 ^ 53" 540 540] r show ?thesis by simp
qed

lemma resize_1680_1050:
  "resize_to_max keep \<lparr>height = 1050, width = 1680, pixels = ()\<rparr> 960 540
     = Inr \<lparr>height = 540, width = 863, pixels = ()\<rparr>"
  using scale_1680 times_1680 times_1050
  by (simp add: resize_to_max_def cv2_resize_def keep_def)

lemma round_1_49: "round_double (1 / 49) = 5882252574524729 / 2 ^ 58"
  using round_double_eqI [where x = "1 / 49" and j = 58 and n = 5882252574524729] by simp

lemma resize_49_49:
  "resize_to_max_windows keep \<lparr>height = 49, width = 49, pixels = ()\<rparr> 1 1 = Inl Cv2Error"
proof -
  have a: "py_truediv 1 (int 49) = Inr (5882252574524729 / 2 ^ 58)"
    using py_truediv_eq [of 49 1] round_1_49 by simp
  have s: "scale_of 49 49 1 1 = Inr (5882252574524729 / 2 ^ 58)"
    using a by (simp add: scale_of_def)
  have r: "round_double (49 * (5882252574524729 / 2 ^ 58)) = (2 ^ 53 - 1) / 2 ^ 53"
    using round_double_eqI [where x = "49 * (5882252574524729 / 2 ^ 58)" and j = 53
        and n = "2 ^ 53 - 1"] by simp
  from int_times_float_eq [of 49 "5882252574524729 / 2 ^ 58" "(2 ^ 53 - 1) / 2 ^ 53" 0] r
  have t: "int_times_float 49 (5882252574524729 / 2 ^ 58) = Inr 0" by simp
  show ?thesis using s t by (simp add: resize_to_max_windows_def cv2_resize_def)
qed

text \<open>
A bound of \<open>10^400\<close> makes the quotient too large for a float.
\<close>

lemma down_twice: "2 ^ 53 \<le> 2 * y \<Longrightarrow> down (2 * y) = 2 * down y"
  by (subst down.simps) (simp add: not_less [symmetric])

lemma down_pow2: "down (2 ^ 53 * 2 ^ n) = 2 ^ 53 * 2 ^ n"
proof (induction n)
  case 0
  have "down (2 * 2 ^ 52) = 2 * down (2 ^ 52)" by (rule down_twice) simp
  also have "down (2 ^ 52) = of_int (rne (2 ^ 52))" by (subst down.simps) simp
  also have "rne (2 ^ 52) = 2 ^ 52" using rne_of_int [of "2 ^ 52"] by simp
  finally show ?case by simp
next
  case (Suc n)
  have "(1::rat) \<le> 2 ^ Suc n" by (rule one_le_power) simp
  then have "(2::rat) ^ 53 \<le> 2 * (2 ^ 53 * 2 ^ n)" by simp
  then have "down (2 * (2 ^ 53 * 2 ^ n)) = 2 * down (2 ^ 53 * 2 ^ n)" by (rule down_twice)
  with Suc.IH show ?case by (simp add: mult.commute mult.left_commute)
qed

lemma round_double_huge: assumes "2 ^ 1024 \<le> x" shows "to_double x = PosInf"
proof -
  have "nearest (2 ^ 1024) = down (2 ^ 1024)" by (simp add: nearest_def)
  also have "\<dots> = 2 ^ 1024" using down_pow2 [of 971] by (simp add: power_add [symmetric])
  finally have "round_double (2 ^ 1024) = 2 ^ 1024" by (simp add: round_double_def)
  with round_double_mono [OF assms] have "2 ^ 1024 \<le> round_double x" by simp
  then show ?thesis by (simp add: to_double_def)
qed

lemma resize_overflow:
  "resize_to_max keep \<lparr>height = 100, width = 100, pixels = ()\<rparr> (10 ^ 400) 720
     = Inl OverflowError"
proof -
  have "(2 :: rat) ^ 1024 \<le> 10 ^ 398" by simp
  also have "(10 :: rat) ^ 398 = of_int (10 ^ 400) / of_int (int 100)" by simp
  finally have "to_double (of_int (10 ^ 400) / of_int (int 100)) = PosInf"
    by (rule round_double_huge)
  then have "py_truediv (10 ^ 400) (int 100) = Inl OverflowError" by (simp add: py_truediv_def)
  then show ?thesis by (simp add: resize_to_max_def scale_of_def)
qed

text \<open>
  On Linux a frame 1 pixel wide and 4 high with bounds 10 by 2 has scale 0.5, and the
  target width \<open>max(2, int(0.5))\<close> is 2: the output is wider than the input.
\<close>

theorem resize_wider_counterexample:
  "resize_to_max keep \<lparr>height = 4, width = 1, pixels = ()\<rparr> 10 2
     = Inr \<lparr>height = 2, width = 2, pixels = ()\<rparr>
   \<and> width \<lparr>height = 2, width = 2, pixels = ()\<rparr> > width \<lparr>height = 4, width = 1, pixels = ()\<rparr>"
  using resize_1_4(1) by simp

text \<open>
  C4, amended. The scale is \<open>min(maxw / w, maxh / h, 1.0)\<close> in double arithmetic and is
  never above 1; when it is at least 1 every variant returns the frame itself. A frame
  of positive width and height that is within both bounds is returned unmodified, unless
  a quotient is too large for a float and \<open>OverflowError\<close> is raised, which does not
  happen for bounds up to \<open>2^53\<close>. For frames narrower and lower than \<open>2^53\<close> pixels: a
  frame returned by the Windows or macOS variant is never wider or higher than the
  input; a frame returned by the Linux variant is at most \<open>max(2, w)\<close> wide and
  \<open>max(2, h)\<close> high, hence never wider or higher than an input of at least 2 by 2
  pixels.
\<close>

theorem resize_never_upscales:
  "(scale_of w h maxw maxh = Inr s \<longrightarrow>
      w \<noteq> 0 \<and> h \<noteq> 0 \<and> s \<le> 1
      \<and> s = min (round_double (of_int maxw / of_nat w))
               (min (round_double (of_int maxh / of_nat h)) 1))
   \<and> (scale_of (width f) (height f) maxw maxh = Inr s \<and> 1 \<le> s \<longrightarrow>
        resize_to_max inter_area f maxw maxh = Inr f
        \<and> resize_to_max_windows inter_area f maxw maxh = Inr f
        \<and> resize_if_needed inter_area f maxw maxh = Inr f)
   \<and> (0 < width f \<and> 0 < height f \<and> int (width f) \<le> maxw \<and> int (height f) \<le> maxh \<longrightarrow>
        (resize_to_max inter_area f maxw maxh = Inr f
           \<or> resize_to_max inter_area f maxw maxh = Inl OverflowError)
        \<and> (resize_to_max_windows inter_area f maxw maxh = Inr f
           \<or> resize_to_max_windows inter_area f maxw maxh = Inl OverflowError)
        \<and> (resize_if_needed inter_area f maxw maxh = Inr f
           \<or> resize_if_needed inter_area f maxw maxh = Inl OverflowError))
   \<and> (0 < width f \<and> 0 < height f \<and> int (width f) \<le> maxw \<and> int (height f) \<le> maxh
        \<and> maxw \<le> 2 ^ 53 \<and> maxh \<le> 2 ^ 53 \<longrightarrow>
        resize_to_max inter_area f maxw maxh = Inr f
        \<and> resize_to_max_windows inter_area f maxw maxh = Inr f
        \<and> resize_if_needed inter_area f maxw maxh = Inr f)
   \<and> (width f < 2 ^ 53 \<and> height f < 2 ^ 53
        \<and> resize_to_max_windows inter_area f maxw maxh = Inr g \<longrightarrow>
        width g \<le> width f \<and> height g \<le> height f)
   \<and> (width f < 2 ^ 53 \<and> height f < 2 ^ 53
        \<and> resize_if_needed inter_area f maxw maxh = Inr g \<longrightarrow>
        width g \<le> width f \<and> height g \<le> height f)
   \<and> (width f < 2 ^ 53 \<and> height f < 2 ^ 53
        \<and> resize_to_max inter_area f maxw maxh = Inr g \<longrightarrow>
        width g \<le> max 2 (width f) \<and> height g \<le> max 2 (height f))
   \<and> (2 \<le> width f \<and> width f < 2 ^ 53 \<and> 2 \<le> height f \<and> height f < 2 ^ 53
        \<and> resize_to_max inter_area f maxw maxh = Inr g \<longrightarrow>
        width g \<le> width f \<and> height g \<le> height f)"
proof -
  have a: "scale_of w h maxw maxh = Inr s \<longrightarrow>
      w \<noteq> 0 \<and> h \<noteq> 0 \<and> s \<le> 1
      \<and> s = min (round_double (of_int maxw / of_nat w))
               (min (round_double (of_int maxh / of_nat h)) 1)"
    using scale_of_def2 [of w h maxw maxh s] scale_of_le_1 [of w h maxw maxh s] by blast
  have b: "scale_of (width f) (height f) maxw maxh = Inr s \<and> 1 \<le> s \<longrightarrow>
        resize_to_max inter_area f maxw maxh = Inr f
        \<and> resize_to_max_windows inter_area f maxw maxh = Inr f
        \<and> resize_if_needed inter_area f maxw maxh = Inr f"
    by (simp add: resize_to_max_def resize_to_max_windows_def resize_if_needed_def)
  have c: "0 < width f \<and> 0 < height f \<and> int (width f) \<le> maxw \<and> int (height f) \<le> maxh \<longrightarrow>
        (resize_to_max inter_area f maxw maxh = Inr f
           \<or> resize_to_max inter_area f maxw maxh = Inl OverflowError)
        \<and> (resize_to_max_windows inter_area f maxw maxh = Inr f
           \<or> resize_to_max_windows inter_area f maxw maxh = Inl OverflowError)
        \<and> (resize_if_needed inter_area f maxw maxh = Inr f
           \<or> resize_if_needed inter_area f maxw maxh = Inl OverflowError)"
    using resize_to_max_within [of f maxw maxh inter_area]
    by (simp add: resize_if_needed_eq)
  have d: "0 < width f \<and> 0 < height f \<and> int (width f) \<le> maxw \<and> int (height f) \<le> maxh
        \<and> maxw \<le> 2 ^ 53 \<and> maxh \<le> 2 ^ 53 \<longrightarrow>
        resize_to_max inter_area f maxw maxh = Inr f
        \<and> resize_to_max_windows inter_area f maxw maxh = Inr f
        \<and> resize_if_needed inter_area f maxw maxh = Inr f"
    using resize_to_max_within_double [of f maxw maxh inter_area]
    by (simp add: resize_if_needed_eq)
  have e: "width f < 2 ^ 53 \<and> height f < 2 ^ 53
        \<and> resize_to_max_windows inter_area f maxw maxh = Inr g \<longrightarrow>
        width g \<le> width f \<and> height g \<le> height f"
    using resize_to_max_windows_bound [of inter_area f maxw maxh g] by blast
  have e': "width f < 2 ^ 53 \<and> height f < 2 ^ 53
        \<and> resize_if_needed inter_area f maxw maxh = Inr g \<longrightarrow>
        width g \<le> width f \<and> height g \<le> height f"
    using resize_to_max_windows_bound [of inter_area f maxw maxh g]
    by (simp add: resize_if_needed_eq)
  have f1: "width f < 2 ^ 53 \<and> height f < 2 ^ 53
        \<and> resize_to_max inter_area f maxw maxh = Inr g \<longrightarrow>
        width g \<le> max 2 (width f) \<and> height g \<le> max 2 (height f)"
    using resize_to_max_bound [of inter_area f maxw maxh g] by blast
  have f2: "2 \<le> width f \<and> width f < 2 ^ 53 \<and> 2 \<le> height f \<and> height f < 2 ^ 53
        \<and> resize_to_max inter_area f maxw maxh = Inr g \<longrightarrow>
        width g \<le> width f \<and> height g \<le> height f"
    using resize_to_max_bound [of inter_area f maxw maxh g] by auto
  from a b c d e e' f1 f2 show ?thesis by blast
qed

theorem resize_never_upscales_witness:
  "resize_to_max keep \<lparr>height = 1080, width = 1920, pixels = ()\<rparr> 1280 720
     = Inr \<lparr>height = 720, width = 1280, pixels = ()\<rparr>
   \<and> (720::nat) \<le> 1080 \<and> (1280::nat) \<le> 1920
   \<and> resize_to_max_windows keep \<lparr>height = 1080, width = 1920, pixels = ()\<rparr> 1280 720
     = Inr \<lparr>height = 720, width = 1280, pixels = ()\<rparr>
   \<and> resize_if_needed keep \<lparr>height = 600, width = 800, pixels = ()\<rparr> 1280 720
     = Inr \<lparr>height = 600, width = 800, pixels = ()\<rparr>"
proof -
  from resize_1920_1080
    resize_never_upscales [where f = "\<lparr>height = 1080, width = 1920, pixels = ()\<rparr>"
      and inter_area = keep and maxw = 1280 and maxh = 720
      and g = "\<lparr>height = 720, width = 1280, pixels = ()\<rparr>"]
    resize_never_upscales [where f = "\<lparr>height = 600, width = 800, pixels = ()\<rparr>"
      and inter_area = keep and maxw = 1280 and maxh = 720]
  show ?thesis by simp
qed

section \<open>Portal requests: waiting for the \<open>Response\<close> signal\<close>

text \<open>
  A D-Bus message as the handler of \<open>wait_request_response\<close> reads it: its type,
  interface, member and object path, and the body of a \<open>Response\<close> signal, which is the
  response code and the results dictionary. The results dictionary is modelled decoded,
  with the two entries the callers read (\<open>session_handle\<close>, \<open>streams\<close>); each stream entry
  is a node id with its \<open>size\<close> and \<open>framerate\<close> properties.
\<close>

datatype message_type = METHOD_CALL | METHOD_RETURN | ERROR | SIGNAL

record stream_entry =
  entry_node_id :: nat
  entry_size :: "int list option"
  entry_framerate :: "int list option"

record results =
  session_handle :: "string option"
  streams :: "stream_entry list option"

record message =
  msg_type :: message_type
  msg_interface :: string
  msg_member :: string
  msg_path :: string
  msg_body :: "nat \<times> results"

text \<open>
  An argument of a method reply: an object path or a file-descriptor handle. The
  dictionary that resolves the future has the keys \<open>response\<close>, \<open>results\<close>, \<open>path\<close> and
  \<open>expected\<close>.
\<close>

datatype dbus_arg = ObjectPath string | Handle nat

record request_result =
  response :: nat
  results :: results
  path :: string
  expected :: dbus_arg

definition IFACE_SCREENCAST :: string where
  "IFACE_SCREENCAST = ''org.freedesktop.portal.ScreenCast''"

definition IFACE_REQUEST :: string where
  "IFACE_REQUEST = ''org.freedesktop.portal.Request''"

definition IFACE_SESSION :: string where
  "IFACE_SESSION = ''org.freedesktop.portal.Session''"

definition DESKTOP_PATH :: string where
  "DESKTOP_PATH = ''/org/freedesktop/portal/desktop''"

text \<open>
  The closure \<open>handler\<close> of \<open>wait_request_response\<close>, with the future as state (\<open>None\<close>
  while pending). It tests the message type, the interface and the member, and sets the
  result if the future is not done. It stores \<open>msg.path\<close> and \<open>expected\<close> in the result
  and does not compare them.
\<close>

definition handler :: "dbus_arg \<Rightarrow> message \<Rightarrow> request_result option \<Rightarrow> request_result option" where
  "handler expected' msg fut =
     (if msg_type msg = SIGNAL \<and> msg_interface msg = IFACE_REQUEST \<and> msg_member msg = ''Response''
      then (if fut = None
            then Some \<lparr>response = fst (msg_body msg), results = snd (msg_body msg),
                       path = msg_path msg, expected = expected'\<rparr>
            else fut)
      else fut)"

text \<open>
  \<open>wait_request_response\<close>: \<open>inbound\<close> are the messages the bus hands to the handler
  between its registration and the deadline of \<open>asyncio.wait_for\<close>; a future still
  pending then is the \<open>TimeoutError\<close>.
\<close>

definition wait_request_response :: "dbus_arg \<Rightarrow> message list \<Rightarrow> exn + request_result" where
  "wait_request_response request_path inbound =
     (let expected' = request_path;
          fut = foldl (\<lambda>fut msg. handler expected' msg fut) None inbound
      in case fut of None \<Rightarrow> Inl TimeoutError | Some r \<Rightarrow> Inr r)"

text \<open>
  The test of the handler, and the characterisation of the wait: it returns the first
  inbound \<open>Response\<close> signal of the request interface, whatever its path.
\<close>

definition is_response :: "message \<Rightarrow> bool" where
  "is_response msg =
     (msg_type msg = SIGNAL \<and> msg_interface msg = IFACE_REQUEST \<and> msg_member msg = ''Response'')"

lemma foldl_handler_Some:
  "foldl (\<lambda>fut msg. handler e msg fut) (Some r) msgs = Some r"
  by (induction msgs) (auto simp: handler_def)

lemma foldl_handler_None:
  "foldl (\<lambda>fut msg. handler e msg fut) None msgs =
     map_option (\<lambda>m. \<lparr>response = fst (msg_body m), results = snd (msg_body m),
                       path = msg_path m, expected = e\<rparr>) (find is_response msgs)"
proof (induction msgs)
  case Nil
  then show ?case by simp
next
  case (Cons m msgs)
  show ?case
  proof (cases "is_response m")
    case True
    then have "handler e m None = Some \<lparr>response = fst (msg_body m), results = snd (msg_body m),
                       path = msg_path m, expected = e\<rparr>"
      by (simp add: handler_def is_response_def)
    with True show ?thesis by (simp add: foldl_handler_Some)
  next
    case False
    then have "handler e m None = None" by (auto simp: handler_def is_response_def)
    with False Cons show ?thesis by simp
  qed
qed

lemma wait_request_response_first:
  "wait_request_response e msgs =
     (case find is_response msgs of
        None \<Rightarrow> Inl TimeoutError
      | Some m \<Rightarrow> Inr \<lparr>response = fst (msg_body m), results = snd (msg_body m),
                        path = msg_path m, expected = e\<rparr>)"
  by (simp add: wait_request_response_def foldl_handler_None split: option.splits)

definition no_results :: results where
  "no_results = \<lparr>session_handle = None, streams = None\<rparr>"

text \<open>
  C1. While the request on path \<open>.../request/1_42/a\<close> is awaited, a \<open>Response\<close> signal on
  the different path \<open>.../request/1_42/b\<close> resolves the pending future: the wait returns
  that signal's response code and results, with \<open>path\<close> different from \<open>expected\<close>.
\<close>

theorem wait_request_response_cross_talk:
  "wait_request_response (ObjectPath ''/org/freedesktop/portal/desktop/request/1_42/a'')
     [\<lparr>msg_type = SIGNAL, msg_interface = IFACE_REQUEST, msg_member = ''Response'',
       msg_path = ''/org/freedesktop/portal/desktop/request/1_42/b'',
       msg_body = (0, no_results)\<rparr>]
   = Inr \<lparr>response = 0, results = no_results,
          path = ''/org/freedesktop/portal/desktop/request/1_42/b'',
          expected = ObjectPath ''/org/freedesktop/portal/desktop/request/1_42/a''\<rparr>"
  by (simp add: wait_request_response_def handler_def)

section \<open>The portal client and the Wayland streamer\<close>

text \<open>
  The portal methods the client calls, and the reply to a method call: its message type,
  its body, the text Python prints for the body, and the file descriptors that came with
  it.
\<close>

datatype portal_method = CreateSession | SelectSources | Start | OpenPipeWireRemote | Close

fun method_name :: "portal_method \<Rightarrow> string" where
  "method_name CreateSession = ''CreateSession''"
| "method_name SelectSources = ''SelectSources''"
| "method_name Start = ''Start''"
| "method_name OpenPipeWireRemote = ''OpenPipeWireRemote''"
| "method_name Close = ''Close''"

record reply =
  reply_type :: message_type
  reply_body :: "dbus_arg list"
  reply_repr :: string
  unix_fds :: "int list"

text \<open>
  What a run does to the outside, in order: opening and closing the websocket,
  connecting to the session bus, a portal method call (object path, interface, method),
  starting and stopping the GStreamer grabber, the "no frames yet" line, sending one
  JPEG, and the sleep before a reconnect.
\<close>

datatype event =
    WsConnect
  | BusConnect
  | PortalCall string string portal_method
  | GrabberStart
  | GrabberStop
  | PrintNoFrames
  | WsSend
  | WsClose
  | ReconnectSleep nat

text \<open>
  A computation that may raise: the events it produced and either the exception or the
  value. \<open>then_run\<close> sequences two of them; an exception ends the sequence.
\<close>

type_synonym 'a run = "event list \<times> (exn + 'a)"

definition return :: "'a \<Rightarrow> 'a run" where
  "return x = ([], Inr x)"

definition raise :: "exn \<Rightarrow> 'a run" where
  "raise e = ([], Inl e)"

definition emit :: "event \<Rightarrow> unit run" where
  "emit ev = ([ev], Inr ())"

definition lift :: "exn + 'a \<Rightarrow> 'a run" where
  "lift r = ([], r)"

definition then_run :: "'a run \<Rightarrow> ('a \<Rightarrow> 'b run) \<Rightarrow> 'b run" where
  "then_run m f =
     (case m of
        (t, Inl e) \<Rightarrow> (t, Inl e)
      | (t, Inr x) \<Rightarrow> (case f x of (t', r) \<Rightarrow> (t @ t', r)))"

text \<open>
  One pass of a streaming loop as the environment decides it: the outcome of acquiring
  a frame (on Linux of \<open>asyncio.wait_for(self.queue.get(), timeout)\<close>, on Windows and
  macOS of the screen grab), of \<open>cv2.imencode\<close> (its \<open>ok\<close> flag) and of \<open>ws.send\<close>.
\<close>

record 'p iteration =
  capture :: "exn + 'p frame"
  encode :: "exn + bool"
  send :: "exn option"

text \<open>
  The environment of one run of \<open>stream_wayland\<close>: whether the session is Wayland, the
  outcome of \<open>websockets.connect\<close>, of the bus connection with \<open>negotiate_unix_fd=True\<close>
  and of the fallback without it, the reply to each portal method, the messages that
  arrive while the response to each method is awaited, the outcome of starting the
  pipeline, and the passes of the streaming loop observed.
\<close>

record 'p world =
  wayland :: bool
  ws_connect :: "exn option"
  bus_first :: "exn option"
  bus_fallback :: "exn option"
  reply_of :: "portal_method \<Rightarrow> exn + reply"
  signals_for :: "portal_method \<Rightarrow> message list"
  pipeline_start :: "exn option"
  iterations :: "'p iteration list"

text \<open>
Python's \<open>str\<close> of a non-negative integer, for the error messages.
\<close>

definition digit :: "nat \<Rightarrow> char" where
  "digit d = ''0123456789'' ! d"

function str_nat :: "nat \<Rightarrow> string" where
  "str_nat n = (if n < 10 then [digit n] else str_nat (n div 10) @ [digit (n mod 10)])"
  by pat_completeness auto
termination
  by (relation "measure id") auto

declare str_nat.simps [simp del]

text \<open>
  \<open>RawPortalScreencast\<close> keeps \<open>fd_passing_enabled\<close>, set once by \<open>connect\<close>: true when
  the bus was created with \<open>negotiate_unix_fd=True\<close>, false when that raised \<open>TypeError\<close>
  and the bus was created without it.
\<close>

record portal =
  fd_passing_enabled :: bool

record PortalStreamInfo =
  node_id :: nat
  stream_width :: int
  stream_height :: int
  framerate :: "(int \<times> int) option"

definition connect :: "'p world \<Rightarrow> portal run" where
  "connect w =
     then_run (emit BusConnect) (\<lambda>_.
       case bus_first w of
         None \<Rightarrow> return \<lparr>fd_passing_enabled = True\<rparr>
       | Some e \<Rightarrow>
           if e = TypeError
           then (case bus_fallback w of
                   None \<Rightarrow> return \<lparr>fd_passing_enabled = False\<rparr>
                 | Some e' \<Rightarrow> raise e')
           else raise e)"

text \<open>
  \<open>call_with_reply\<close> sends the method call and raises \<open>RuntimeError\<close> on an error reply;
  \<open>call\<close> returns the reply's body. \<open>index0\<close> is Python's \<open>xs[0]\<close>.
\<close>

definition call_with_reply :: "'p world \<Rightarrow> string \<Rightarrow> string \<Rightarrow> portal_method \<Rightarrow> reply run" where
  "call_with_reply w obj_path iface m =
     then_run (emit (PortalCall obj_path iface m)) (\<lambda>_.
       case reply_of w m of
         Inl e \<Rightarrow> raise e
       | Inr rep \<Rightarrow>
           if reply_type rep = ERROR
           then raise (RuntimeError (''D-Bus error calling '' @ iface @ ''.'' @ method_name m
                         @ '': '' @ reply_repr rep))
           else return rep)"

definition call :: "'p world \<Rightarrow> string \<Rightarrow> string \<Rightarrow> portal_method \<Rightarrow> dbus_arg list run" where
  "call w obj_path iface m =
     then_run (call_with_reply w obj_path iface m) (\<lambda>rep. return (reply_body rep))"

definition index0 :: "'a list \<Rightarrow> 'a run" where
  "index0 xs = (case xs of [] \<Rightarrow> raise IndexError | x # _ \<Rightarrow> return x)"

text \<open>
  The exception of a denied step, \<open>RuntimeError(f"{step} failed (response={code})")\<close>.
\<close>

definition failed :: "portal_method \<Rightarrow> nat \<Rightarrow> exn" where
  "failed m code = RuntimeError (method_name m @ '' failed (response='' @ str_nat code @ '')'')"

text \<open>
  The three request steps: call the method, wait for the response to the returned
  request path (with timeouts of 30, 60 and 90 seconds), raise on a response code other
  than 0. \<open>create_session\<close> returns the session handle and raises when it is missing or
  empty; \<open>start\<close> returns the streams and raises when there is none.
\<close>

definition create_session :: "'p world \<Rightarrow> string run" where
  "create_session w =
     then_run (call w DESKTOP_PATH IFACE_SCREENCAST CreateSession) (\<lambda>body.
     then_run (index0 body) (\<lambda>request_path.
     then_run (lift (wait_request_response request_path (signals_for w CreateSession))) (\<lambda>resp.
       if response resp \<noteq> 0 then raise (failed CreateSession (response resp))
       else (case session_handle (results resp) of
               None \<Rightarrow> raise (RuntimeError ''Portal did not return session_handle'')
             | Some h \<Rightarrow>
                 if h = [] then raise (RuntimeError ''Portal did not return session_handle'')
                 else return h))))"

definition select_sources :: "'p world \<Rightarrow> string \<Rightarrow> unit run" where
  "select_sources w session =
     then_run (call w DESKTOP_PATH IFACE_SCREENCAST SelectSources) (\<lambda>body.
     then_run (index0 body) (\<lambda>request_path.
     then_run (lift (wait_request_response request_path (signals_for w SelectSources))) (\<lambda>resp.
       if response resp \<noteq> 0 then raise (failed SelectSources (response resp))
       else return ())))"

definition stream_info :: "stream_entry \<Rightarrow> PortalStreamInfo" where
  "stream_info entry =
     (let size = (case entry_size entry of None \<Rightarrow> [0, 0] | Some sz \<Rightarrow> sz);
          fr = entry_framerate entry;
          (w, h) = (if length size \<ge> 2 then (size ! 0, size ! 1) else (0, 0));
          fr_t = (case fr of
                    None \<Rightarrow> None
                  | Some l \<Rightarrow> if length l = 2 then Some (l ! 0, l ! 1) else None)
      in \<lparr>node_id = entry_node_id entry, stream_width = w, stream_height = h,
          framerate = fr_t\<rparr>)"

definition start :: "'p world \<Rightarrow> string \<Rightarrow> PortalStreamInfo list run" where
  "start w session =
     then_run (call w DESKTOP_PATH IFACE_SCREENCAST Start) (\<lambda>body.
     then_run (index0 body) (\<lambda>request_path.
     then_run (lift (wait_request_response request_path (signals_for w Start))) (\<lambda>resp.
       if response resp \<noteq> 0 then raise (failed Start (response resp))
       else (case streams (results resp) of
               None \<Rightarrow> raise (RuntimeError ''No streams returned by portal'')
             | Some ss \<Rightarrow>
                 if ss = [] then raise (RuntimeError ''No streams returned by portal'')
                 else return (map stream_info ss)))))"

text \<open>
  \<open>open_pipewire_remote\<close> raises at once when fd passing is not enabled; otherwise it
  calls \<open>OpenPipeWireRemote\<close> and reads the descriptor at the returned index.
\<close>

definition fd_passing_unsupported :: exn where
  "fd_passing_unsupported =
     RuntimeError (''Your dbus-next doesn't support unix fd passing in this environment.''
       @ [CHR 0x0A] @ ''Run: pip install -U dbus-next'' @ [CHR 0x0A])"

definition open_pipewire_remote :: "portal \<Rightarrow> 'p world \<Rightarrow> string \<Rightarrow> int run" where
  "open_pipewire_remote p w session =
     (if \<not> fd_passing_enabled p then raise fd_passing_unsupported
      else
        then_run (call_with_reply w DESKTOP_PATH IFACE_SCREENCAST OpenPipeWireRemote) (\<lambda>rep.
          if unix_fds rep = []
          then raise (RuntimeError ''OpenPipeWireRemote returned no unix_fds (FD passing failed).'')
          else
            then_run (index0 (reply_body rep)) (\<lambda>fd_handle.
              case fd_handle of
                ObjectPath s \<Rightarrow> raise ValueError
              | Handle fd_index \<Rightarrow>
                  if fd_index < length (unix_fds rep) then return (unix_fds rep ! fd_index)
                  else raise IndexError)))"

text \<open>
\<open>close_session\<close> calls \<open>Close\<close> on the session object and swallows every exception.
\<close>

definition close_session :: "'p world \<Rightarrow> string \<Rightarrow> unit run" where
  "close_session w session =
     (case call w session IFACE_SESSION Close of (t, _) \<Rightarrow> (t, Inr ()))"

text \<open>
  \<open>get_frame\<close>: the argument \<open>queue_get\<close> is the outcome of
  \<open>asyncio.wait_for(self.queue.get(), timeout=timeout_s)\<close>; its \<open>TimeoutError\<close> is caught
  and becomes \<open>None\<close>.
\<close>

definition get_frame :: "rat \<Rightarrow> exn + 'f \<Rightarrow> exn + 'f option" where
  "get_frame timeout_s queue_get =
     (case queue_get of
        Inr frame \<Rightarrow> Inr (Some frame)
      | Inl e \<Rightarrow> if e = TimeoutError then Inr None else Inl e)"

text \<open>
  The \<open>while True\<close> loop of \<open>stream_wayland\<close> over the observed passes. The result is
  the exception that ended the loop, or \<open>None\<close> while it is still running. The periodic
  statistics line has no effect on control flow and is not traced.
\<close>

fun stream_loop ::
  "('p \<Rightarrow> nat \<times> nat \<Rightarrow> 'p) \<Rightarrow> int \<Rightarrow> int \<Rightarrow> 'p iteration list \<Rightarrow> event list \<times> exn option" where
  "stream_loop inter_area maxw maxh [] = ([], None)"
| "stream_loop inter_area maxw maxh (it # its) =
     (case get_frame 3 (capture it) of
        Inl e \<Rightarrow> ([], Some e)
      | Inr None \<Rightarrow>
          (case stream_loop inter_area maxw maxh its of (t, r) \<Rightarrow> (PrintNoFrames # t, r))
      | Inr (Some frame) \<Rightarrow>
          (case resize_to_max inter_area frame maxw maxh of
             Inl e \<Rightarrow> ([], Some e)
           | Inr frame' \<Rightarrow>
               (case encode it of
                  Inl e \<Rightarrow> ([], Some e)
                | Inr ok \<Rightarrow>
                    if ok
                    then (case send it of
                            Some e \<Rightarrow> ([WsSend], Some e)
                          | None \<Rightarrow>
                              (case stream_loop inter_area maxw maxh its of
                                 (t, r) \<Rightarrow> (WsSend # t, r)))
                    else stream_loop inter_area maxw maxh its)))"

text \<open>
  How a run is found: returned, ended by an exception, or still running when the
  observed passes are used up.
\<close>

datatype outcome = Returned | Raised exn | Running

text \<open>
  The \<open>try\<close> block of \<open>stream_wayland\<close>: its events, the exception that left it (if
  any), and whether \<open>grabber\<close> was assigned. Then \<open>stream_wayland\<close> itself, with the
  \<open>finally\<close> clause (stop the grabber if there is one, close the session) and the exit
  from \<open>async with\<close>, which closes the websocket.
\<close>

definition try_block ::
  "('p \<Rightarrow> nat \<times> nat \<Rightarrow> 'p) \<Rightarrow> int \<Rightarrow> int \<Rightarrow> portal \<Rightarrow> 'p world \<Rightarrow> string
     \<Rightarrow> event list \<times> exn option \<times> bool" where
  "try_block inter_area maxw maxh p w session =
     (case then_run (select_sources w session) (\<lambda>_.
           then_run (start w session) (\<lambda>streams.
           then_run (index0 streams) (\<lambda>s.
           then_run (open_pipewire_remote p w session) (\<lambda>pw_fd. return (s, pw_fd))))) of
        (t, Inl e) \<Rightarrow> (t, Some e, False)
      | (t, Inr (s, pw_fd)) \<Rightarrow>
          (case pipeline_start w of
             Some e \<Rightarrow> (t @ [GrabberStart], Some e, True)
           | None \<Rightarrow>
               (case stream_loop inter_area maxw maxh (iterations w) of
                  (t', r) \<Rightarrow> (t @ [GrabberStart] @ t', r, True))))"

definition stream_wayland ::
  "('p \<Rightarrow> nat \<times> nat \<Rightarrow> 'p) \<Rightarrow> int \<Rightarrow> int \<Rightarrow> 'p world \<Rightarrow> event list \<times> outcome" where
  "stream_wayland inter_area maxw maxh w =
     (if \<not> wayland w then ([], Returned)
      else
        case ws_connect w of
          Some e \<Rightarrow> ([WsConnect], Raised e)
        | None \<Rightarrow>
            (case then_run (connect w) (\<lambda>p.
                  then_run (create_session w) (\<lambda>session. return (p, session))) of
               (t, Inl e) \<Rightarrow> (WsConnect # t @ [WsClose], Raised e)
             | (t, Inr (p, session)) \<Rightarrow>
                 (case try_block inter_area maxw maxh p w session of
                    (t', None, grabber) \<Rightarrow> (WsConnect # t @ t', Running)
                  | (t', Some e, grabber) \<Rightarrow>
                      (WsConnect # t @ t' @ (if grabber then [GrabberStop] else [])
                         @ fst (close_session w session) @ [WsClose],
                       Raised e))))"

text \<open>
  The portal methods called in a trace, and whether the wait after a method was
  resolved by a \<open>Response\<close> signal with code 0.
\<close>

fun calls :: "event list \<Rightarrow> portal_method list" where
  "calls [] = []"
| "calls (PortalCall obj_path iface m # t) = m # calls t"
| "calls (ev # t) = calls t"

definition accepted :: "'p world \<Rightarrow> portal_method \<Rightarrow> bool" where
  "accepted w m =
     (case find is_response (signals_for w m) of
        None \<Rightarrow> False
      | Some sig \<Rightarrow> fst (msg_body sig) = 0)"

lemma calls_append: "calls (xs @ ys) = calls xs @ calls ys"
  by (induction xs rule: calls.induct) auto

lemma then_run_Inl: "then_run (t, Inl e) f = (t, Inl e)"
  by (simp add: then_run_def)

lemma then_run_Inr: "then_run (t, Inr x) f = (t @ fst (f x), snd (f x))"
  by (simp add: then_run_def split: prod.splits)

lemma call_with_reply_trace:
  "fst (call_with_reply w obj_path iface m) = [PortalCall obj_path iface m]"
  by (simp add: call_with_reply_def emit_def then_run_Inr raise_def return_def split: sum.splits)

lemma call_trace: "fst (call w obj_path iface m) = [PortalCall obj_path iface m]"
proof (cases "call_with_reply w obj_path iface m")
  case (Pair t r)
  with call_with_reply_trace [of w obj_path iface m] have t: "t = [PortalCall obj_path iface m]"
    by simp
  show ?thesis
    by (cases r) (simp_all add: call_def Pair t then_run_Inl then_run_Inr return_def)
qed

lemma wait_accepted:
  "wait_request_response rp (signals_for w m) = Inr resp \<Longrightarrow> response resp = 0 \<Longrightarrow> accepted w m"
  by (auto simp: wait_request_response_first accepted_def split: option.splits)

lemma request_step:
  assumes "step = then_run (call w DESKTOP_PATH IFACE_SCREENCAST m) (\<lambda>body.
     then_run (index0 body) (\<lambda>request_path.
     then_run (lift (wait_request_response request_path (signals_for w m))) (\<lambda>resp.
       if response resp \<noteq> 0 then raise (failed m (response resp)) else k resp)))"
    and "\<And>resp. fst (k resp) = []"
  shows "fst step = [PortalCall DESKTOP_PATH IFACE_SCREENCAST m]"
    and "snd step = Inr x \<Longrightarrow> accepted w m"
proof -
  obtain t r where c: "call w DESKTOP_PATH IFACE_SCREENCAST m = (t, r)" by (cases "call w DESKTOP_PATH IFACE_SCREENCAST m")
  with call_trace [of w DESKTOP_PATH IFACE_SCREENCAST m]
  have t: "t = [PortalCall DESKTOP_PATH IFACE_SCREENCAST m]" by simp
  show "fst step = [PortalCall DESKTOP_PATH IFACE_SCREENCAST m]"
  proof (cases r)
    case (Inl e)
    then show ?thesis by (simp add: assms(1) c t then_run_Inl)
  next
    case (Inr body)
    show ?thesis
    proof (cases body)
      case Nil
      with Inr show ?thesis
        by (simp add: assms(1) c t then_run_Inl then_run_Inr index0_def raise_def)
    next
      case (Cons rp rest)
      show ?thesis
      proof (cases "wait_request_response rp (signals_for w m)")
        case (Inl e)
        with Cons Inr show ?thesis
          by (simp add: assms(1) c t then_run_Inl then_run_Inr index0_def return_def lift_def)
      next
        case (Inr resp)
        with Cons \<open>r = Inr body\<close> show ?thesis
          by (simp add: assms c t then_run_Inl then_run_Inr index0_def return_def lift_def raise_def)
      qed
    qed
  qed
  show "accepted w m" if "snd step = Inr x"
  proof (cases r)
    case (Inl e)
    with that show ?thesis by (simp add: assms(1) c then_run_Inl)
  next
    case (Inr body)
    show ?thesis
    proof (cases body)
      case Nil
      with Inr that show ?thesis
        by (simp add: assms(1) c then_run_Inl then_run_Inr index0_def raise_def)
    next
      case (Cons rp rest)
      show ?thesis
      proof (cases "wait_request_response rp (signals_for w m)")
        case (Inl e)
        with Cons Inr that show ?thesis
          by (simp add: assms(1) c then_run_Inl then_run_Inr index0_def return_def lift_def)
      next
        case (Inr resp)
        with Cons \<open>r = Inr body\<close> that have "response resp = 0"
          by (simp add: assms(1) c then_run_Inl then_run_Inr index0_def return_def lift_def raise_def
              split: if_splits)
        with Inr show ?thesis by (rule wait_accepted)
      qed
    qed
  qed
qed

lemma create_session_step:
  shows "fst (create_session w) = [PortalCall DESKTOP_PATH IFACE_SCREENCAST CreateSession]"
    and "snd (create_session w) = Inr session \<Longrightarrow> accepted w CreateSession"
proof -
  let ?k = "\<lambda>resp. (case session_handle (results resp) of
               None \<Rightarrow> raise (RuntimeError ''Portal did not return session_handle'')
             | Some h \<Rightarrow>
                 if h = [] then raise (RuntimeError ''Portal did not return session_handle'')
                 else return h)"
  have d: "create_session w = then_run (call w DESKTOP_PATH IFACE_SCREENCAST CreateSession) (\<lambda>body.
     then_run (index0 body) (\<lambda>request_path.
     then_run (lift (wait_request_response request_path (signals_for w CreateSession))) (\<lambda>resp.
       if response resp \<noteq> 0 then raise (failed CreateSession (response resp)) else ?k resp)))"
    by (simp add: create_session_def)
  have k: "fst (?k resp) = []" for resp
    by (simp add: raise_def return_def split: option.splits)
  show "fst (create_session w) = [PortalCall DESKTOP_PATH IFACE_SCREENCAST CreateSession]"
    using d k by (rule request_step(1))
  show "accepted w CreateSession" if "snd (create_session w) = Inr session"
    using d k that by (rule request_step(2))
qed

lemma select_sources_step:
  shows "fst (select_sources w session) = [PortalCall DESKTOP_PATH IFACE_SCREENCAST SelectSources]"
    and "snd (select_sources w session) = Inr u \<Longrightarrow> accepted w SelectSources"
proof -
  let ?k = "\<lambda>resp :: request_result. return ()"
  have d: "select_sources w session = then_run (call w DESKTOP_PATH IFACE_SCREENCAST SelectSources) (\<lambda>body.
     then_run (index0 body) (\<lambda>request_path.
     then_run (lift (wait_request_response request_path (signals_for w SelectSources))) (\<lambda>resp.
       if response resp \<noteq> 0 then raise (failed SelectSources (response resp)) else ?k resp)))"
    by (simp add: select_sources_def)
  have k: "fst (?k resp) = []" for resp
    by (simp add: return_def)
  show "fst (select_sources w session) = [PortalCall DESKTOP_PATH IFACE_SCREENCAST SelectSources]"
    using d k by (rule request_step(1))
  show "accepted w SelectSources" if "snd (select_sources w session) = Inr u"
    using d k that by (rule request_step(2))
qed

lemma start_step:
  shows "fst (start w session) = [PortalCall DESKTOP_PATH IFACE_SCREENCAST Start]"
    and "snd (start w session) = Inr infos \<Longrightarrow> accepted w Start"
proof -
  let ?k = "\<lambda>resp. (case streams (results resp) of
               None \<Rightarrow> raise (RuntimeError ''No streams returned by portal'')
             | Some ss \<Rightarrow>
                 if ss = [] then raise (RuntimeError ''No streams returned by portal'')
                 else return (map stream_info ss))"
  have d: "start w session = then_run (call w DESKTOP_PATH IFACE_SCREENCAST Start) (\<lambda>body.
     then_run (index0 body) (\<lambda>request_path.
     then_run (lift (wait_request_response request_path (signals_for w Start))) (\<lambda>resp.
       if response resp \<noteq> 0 then raise (failed Start (response resp)) else ?k resp)))"
    by (simp add: start_def)
  have k: "fst (?k resp) = []" for resp
    by (simp add: raise_def return_def split: option.splits)
  show "fst (start w session) = [PortalCall DESKTOP_PATH IFACE_SCREENCAST Start]"
    using d k by (rule request_step(1))
  show "accepted w Start" if "snd (start w session) = Inr infos"
    using d k that by (rule request_step(2))
qed

lemma open_pipewire_remote_trace:
  "fst (open_pipewire_remote p w session) =
     (if fd_passing_enabled p then [PortalCall DESKTOP_PATH IFACE_SCREENCAST OpenPipeWireRemote]
      else [])"
proof (cases "fd_passing_enabled p")
  case False
  then show ?thesis by (simp add: open_pipewire_remote_def raise_def)
next
  case True
  obtain t r where c: "call_with_reply w DESKTOP_PATH IFACE_SCREENCAST OpenPipeWireRemote = (t, r)"
    by (cases "call_with_reply w DESKTOP_PATH IFACE_SCREENCAST OpenPipeWireRemote")
  with call_with_reply_trace [of w DESKTOP_PATH IFACE_SCREENCAST OpenPipeWireRemote]
  have t: "t = [PortalCall DESKTOP_PATH IFACE_SCREENCAST OpenPipeWireRemote]" by simp
  show ?thesis
  proof (cases r)
    case (Inl e)
    with True show ?thesis by (simp add: open_pipewire_remote_def c t then_run_Inl)
  next
    case (Inr rep)
    with True show ?thesis
      by (simp add: open_pipewire_remote_def c t then_run_Inl then_run_Inr index0_def raise_def
          return_def split: list.splits dbus_arg.splits)
  qed
qed

lemma close_session_always:
  "close_session w session = ([PortalCall session IFACE_SESSION Close], Inr ())"
  using call_trace [of w session IFACE_SESSION Close]
  by (cases "call w session IFACE_SESSION Close") (simp add: close_session_def)

lemma stream_loop_calls: "calls (fst (stream_loop inter_area maxw maxh its)) = []"
  by (induction its) (auto split: sum.splits option.splits prod.splits)

lemma connect_calls: "calls (fst (connect w)) = []"
  by (simp add: connect_def emit_def then_run_Inr raise_def return_def split: option.splits)

lemma try_block_shape:
  assumes "try_block inter_area maxw maxh p w session = (t, r, g)"
  shows "(calls t = [SelectSources] \<or> calls t = [SelectSources, Start]
            \<or> calls t = [SelectSources, Start, OpenPipeWireRemote])
       \<and> (Start \<in> set (calls t) \<longrightarrow> accepted w SelectSources)
       \<and> (OpenPipeWireRemote \<in> set (calls t) \<longrightarrow>
            accepted w SelectSources \<and> accepted w Start \<and> fd_passing_enabled p)
       \<and> (r = None \<longrightarrow> g)"
proof -
  obtain t1 r1 where s1: "select_sources w session = (t1, r1)" by (cases "select_sources w session")
  obtain t2 r2 where s2: "start w session = (t2, r2)" by (cases "start w session")
  obtain t3 r3 where s3: "open_pipewire_remote p w session = (t3, r3)"
    by (cases "open_pipewire_remote p w session")
  obtain t4 r4 where s4: "stream_loop inter_area maxw maxh (iterations w) = (t4, r4)"
    by (cases "stream_loop inter_area maxw maxh (iterations w)")
  from select_sources_step(1) [of w session] s1
  have c1: "calls t1 = [SelectSources]" by simp
  from start_step(1) [of w session] s2 have c2: "calls t2 = [Start]" by simp
  from open_pipewire_remote_trace [of p w session] s3
  have c3: "calls t3 = (if fd_passing_enabled p then [OpenPipeWireRemote] else [])" by simp
  from stream_loop_calls [of inter_area maxw maxh "iterations w"] s4 have c4: "calls t4 = []" by simp
  show ?thesis
  proof (cases r1)
    case (Inl e)
    with assms s1 c1 show ?thesis by (auto simp: try_block_def then_run_Inl)
  next
    case a1: (Inr u)
    from select_sources_step(2) [of w session u] s1 a1 have acc1: "accepted w SelectSources" by simp
    show ?thesis
    proof (cases r2)
      case (Inl e)
      with assms s1 s2 a1 c1 c2 acc1 show ?thesis
        by (auto simp: try_block_def then_run_Inl then_run_Inr calls_append)
    next
      case a2: (Inr infos)
      from start_step(2) [of w session infos] s2 a2 have acc2: "accepted w Start" by simp
      show ?thesis
      proof (cases infos)
        case Nil
        with assms s1 s2 a1 a2 c1 c2 acc1 show ?thesis
          by (auto simp: try_block_def then_run_Inl then_run_Inr calls_append index0_def raise_def)
      next
        case (Cons s rest)
        show ?thesis
        proof (cases r3)
          case (Inl e)
          with assms s1 s2 s3 a1 a2 Cons c1 c2 c3 acc1 acc2 show ?thesis
            by (auto simp: try_block_def then_run_Inl then_run_Inr calls_append index0_def
                return_def split: if_splits)
        next
          case a3: (Inr pw_fd)
          have fd: "fd_passing_enabled p"
          proof (rule ccontr)
            assume "\<not> fd_passing_enabled p"
            with s3 a3 show False by (simp add: open_pipewire_remote_def raise_def)
          qed
          from assms s1 s2 s3 s4 a1 a2 a3 Cons c1 c2 c3 c4 acc1 acc2 fd show ?thesis
            by (auto simp: try_block_def then_run_Inl then_run_Inr calls_append index0_def
                return_def split: option.splits)
        qed
      qed
    qed
  qed
qed

text \<open>
The negotiation steps of a trace: its portal calls other than \<open>Close\<close>.
\<close>

definition portal_steps :: "event list \<Rightarrow> portal_method list" where
  "portal_steps t = filter (\<lambda>m. m \<noteq> Close) (calls t)"

lemma stream_wayland_steps:
  assumes steps_def: "steps = portal_steps (fst (stream_wayland inter_area maxw maxh w))"
  shows "(steps = [] \<or> steps = [CreateSession] \<or> steps = [CreateSession, SelectSources]
            \<or> steps = [CreateSession, SelectSources, Start]
            \<or> steps = [CreateSession, SelectSources, Start, OpenPipeWireRemote])
       \<and> (SelectSources \<in> set steps \<longrightarrow> accepted w CreateSession)
       \<and> (Start \<in> set steps \<longrightarrow> accepted w CreateSession \<and> accepted w SelectSources)
       \<and> (OpenPipeWireRemote \<in> set steps \<longrightarrow>
             accepted w CreateSession \<and> accepted w SelectSources \<and> accepted w Start)"
proof (cases "wayland w \<and> ws_connect w = None")
  case False
  then show ?thesis
    by (auto simp: steps_def portal_steps_def stream_wayland_def split: option.splits)
next
  case True
  obtain t0 r0 where s0: "connect w = (t0, r0)" by (cases "connect w")
  from connect_calls [of w] s0 have c0: "calls t0 = []" by simp
  show ?thesis
  proof (cases r0)
    case (Inl e)
    with True s0 c0 show ?thesis
      by (simp add: steps_def portal_steps_def stream_wayland_def then_run_Inl calls_append)
  next
    case a0: (Inr p)
    obtain t1 r1 where s1: "create_session w = (t1, r1)" by (cases "create_session w")
    from create_session_step(1) [of w] s1 have c1: "calls t1 = [CreateSession]" by simp
    show ?thesis
    proof (cases r1)
      case (Inl e)
      with True s0 a0 s1 c0 c1 show ?thesis
        by (simp add: steps_def portal_steps_def stream_wayland_def then_run_Inl then_run_Inr
            calls_append)
    next
      case a1: (Inr session)
      from create_session_step(2) [of w session] s1 a1 have acc: "accepted w CreateSession" by simp
      obtain t r g where tb: "try_block inter_area maxw maxh p w session = (t, r, g)"
        by (cases "try_block inter_area maxw maxh p w session")
      note sh = try_block_shape [OF tb]
      have st: "steps = CreateSession # calls t"
      proof (cases r)
        case None
        with True s0 a0 s1 a1 tb c0 c1 sh show ?thesis
          by (auto simp: steps_def portal_steps_def stream_wayland_def then_run_Inl then_run_Inr
              calls_append return_def)
      next
        case (Some e)
        with True s0 a0 s1 a1 tb c0 c1 sh show ?thesis
          by (auto simp: steps_def portal_steps_def stream_wayland_def then_run_Inl then_run_Inr
              calls_append return_def close_session_always)
      qed
      from sh acc show ?thesis unfolding st by auto
    qed
  qed
qed

lemma stream_wayland_after_session:
  assumes "wayland w" and "ws_connect w = None"
    and c: "connect w = (t0, Inr p)" and s: "create_session w = (t1, Inr session)"
    and tb: "try_block inter_area maxw maxh p w session = (t, r, g)"
  shows "stream_wayland inter_area maxw maxh w =
           (case r of
              None \<Rightarrow> (WsConnect # (t0 @ t1) @ t, Running)
            | Some e \<Rightarrow>
                (WsConnect # (t0 @ t1) @ t @ (if g then [GrabberStop] else [])
                   @ [PortalCall session IFACE_SESSION Close] @ [WsClose], Raised e))"
  using assms
  by (simp add: stream_wayland_def then_run_Inr return_def close_session_always
      split: option.splits)

lemma close_after_session:
  assumes "wayland w" and "ws_connect w = None"
    and c: "snd (connect w) = Inr p" and s: "snd (create_session w) = Inr session"
    and r: "snd (stream_wayland inter_area maxw maxh w) = Raised e"
  shows "\<exists>t. fst (stream_wayland inter_area maxw maxh w)
               = t @ [PortalCall session IFACE_SESSION Close, WsClose]
             \<and> Close \<notin> set (calls t)"
proof -
  obtain t0 where c': "connect w = (t0, Inr p)" using c by (cases "connect w") simp
  obtain t1 where s': "create_session w = (t1, Inr session)" using s by (cases "create_session w") simp
  obtain t r' g where tb: "try_block inter_area maxw maxh p w session = (t, r', g)"
    by (cases "try_block inter_area maxw maxh p w session")
  note eq = stream_wayland_after_session [OF assms(1,2) c' s' tb]
  from eq r obtain e' where e': "r' = Some e'" by (cases r') auto
  let ?t = "WsConnect # (t0 @ t1) @ t @ (if g then [GrabberStop] else [])"
  have a: "fst (stream_wayland inter_area maxw maxh w)
            = ?t @ [PortalCall session IFACE_SESSION Close, WsClose]"
    using eq e' by simp
  from connect_calls [of w] c' have k0: "calls t0 = []" by simp
  from create_session_step(1) [of w] s' have k1: "calls t1 = [CreateSession]" by simp
  from try_block_shape [OF tb] have k2: "Close \<notin> set (calls t)" by auto
  have "Close \<notin> set (calls ?t)" using k0 k1 k2 by (simp add: calls_append)
  with a show ?thesis by blast
qed

lemma never_returns_after_session:
  assumes "wayland w" and "ws_connect w = None"
    and c: "snd (connect w) = Inr p" and s: "snd (create_session w) = Inr session"
  shows "snd (stream_wayland inter_area maxw maxh w) \<noteq> Returned"
proof -
  obtain t0 where c': "connect w = (t0, Inr p)" using c by (cases "connect w") simp
  obtain t1 where s': "create_session w = (t1, Inr session)" using s by (cases "create_session w") simp
  obtain t r' g where tb: "try_block inter_area maxw maxh p w session = (t, r', g)"
    by (cases "try_block inter_area maxw maxh p w session")
  from stream_wayland_after_session [OF assms(1,2) c' s' tb] show ?thesis
    by (cases r') auto
qed

lemma connect_fallback:
  assumes "bus_first w = Some TypeError" and "bus_fallback w = None"
  shows "connect w = ([BusConnect], Inr \<lparr>fd_passing_enabled = False\<rparr>)"
  using assms by (simp add: connect_def emit_def then_run_Inr return_def)

lemma open_pipewire_remote_unsupported:
  "\<not> fd_passing_enabled p \<Longrightarrow> open_pipewire_remote p w session = ([], Inl fd_passing_unsupported)"
  by (simp add: open_pipewire_remote_def raise_def)

lemma fallback_never_opens:
  assumes "bus_first w = Some TypeError" and "bus_fallback w = None"
  shows "OpenPipeWireRemote \<notin> set (calls (fst (stream_wayland inter_area maxw maxh w)))"
proof (cases "wayland w \<and> ws_connect w = None")
  case False
  then show ?thesis by (auto simp: stream_wayland_def split: option.splits)
next
  case True
  note c = connect_fallback [OF assms]
  obtain t1 r1 where s1: "create_session w = (t1, r1)" by (cases "create_session w")
  from create_session_step(1) [of w] s1 have k1: "calls t1 = [CreateSession]" by simp
  show ?thesis
  proof (cases r1)
    case (Inl e)
    with True c s1 k1 show ?thesis
      by (simp add: stream_wayland_def then_run_Inl then_run_Inr calls_append)
  next
    case (Inr session)
    obtain t r g where tb: "try_block inter_area maxw maxh \<lparr>fd_passing_enabled = False\<rparr> w session = (t, r, g)"
      by (cases "try_block inter_area maxw maxh \<lparr>fd_passing_enabled = False\<rparr> w session")
    from try_block_shape [OF tb] have k2: "OpenPipeWireRemote \<notin> set (calls t)" by auto
    from True have wl: "wayland w" and wc: "ws_connect w = None" by simp_all
    from s1 Inr have s1': "create_session w = (t1, Inr session)" by simp
    from stream_wayland_after_session [OF wl wc c s1' tb] k1 k2 show ?thesis
      by (cases r) (simp_all add: calls_append)
  qed
qed

lemma unsupported_not_denial:
  "fd_passing_unsupported \<noteq> failed m code"
  by (cases m) (simp_all add: fd_passing_unsupported_def failed_def)

lemma unsupported_not_dbus_error:
  "fd_passing_unsupported \<noteq> RuntimeError (''D-Bus error calling '' @ rest)"
  by (simp add: fd_passing_unsupported_def)

lemma get_frame_timeout: "get_frame timeout_s (Inl TimeoutError) = Inr None"
  by (simp add: get_frame_def)

lemma stream_loop_timeout:
  "capture it = Inl TimeoutError \<Longrightarrow>
   stream_loop inter_area maxw maxh (it # its)
     = (PrintNoFrames # fst (stream_loop inter_area maxw maxh its),
        snd (stream_loop inter_area maxw maxh its))"
  by (simp add: get_frame_def split: prod.splits)

lemma stream_loop_timeouts:
  "\<forall>it \<in> set tos. capture it = Inl TimeoutError \<Longrightarrow>
   stream_loop inter_area maxw maxh (tos @ its)
     = (replicate (length tos) PrintNoFrames @ fst (stream_loop inter_area maxw maxh its),
        snd (stream_loop inter_area maxw maxh its))"
proof (induction tos)
  case Nil
  then show ?case by simp
next
  case (Cons a tos)
  then have "capture a = Inl TimeoutError" by simp
  from stream_loop_timeout [OF this, of inter_area maxw maxh "tos @ its"] Cons show ?case
    by simp
qed

text \<open>
  Four concrete environments: a portal that grants every step, with a loop that times
  out once, sends a frame and then fails to send; the same with a \<open>dbus-next\<close> whose
  \<open>MessageBus\<close> rejects \<open>negotiate_unix_fd\<close>; a portal that answers \<open>Start\<close> with
  response code 1; and a portal that answers \<open>SelectSources\<close> with response code 1 on the
  request path it returned, \<open>/request/2\<close>, while the bus delivers before it a \<open>Response\<close>
  signal with code 0 that belongs to another request, on the path \<open>/request/OTHER\<close>.
\<close>

definition ok_reply :: "dbus_arg list \<Rightarrow> int list \<Rightarrow> exn + reply" where
  "ok_reply b fds = Inr \<lparr>reply_type = METHOD_RETURN, reply_body = b, reply_repr = [], unix_fds = fds\<rparr>"

definition response_signal :: "string \<Rightarrow> nat \<Rightarrow> results \<Rightarrow> message" where
  "response_signal p code res =
     \<lparr>msg_type = SIGNAL, msg_interface = IFACE_REQUEST, msg_member = ''Response'',
      msg_path = p, msg_body = (code, res)\<rparr>"

definition granted :: "portal_method \<Rightarrow> message list" where
  "granted m =
     (if m = CreateSession
      then [response_signal ''/request/1'' 0 \<lparr>session_handle = Some ''/session/1'', streams = None\<rparr>]
      else if m = SelectSources then [response_signal ''/request/2'' 0 no_results]
      else if m = Start
      then [response_signal ''/request/3'' 0
              \<lparr>session_handle = None,
               streams = Some [\<lparr>entry_node_id = 42, entry_size = Some [1920, 1080],
                                entry_framerate = None\<rparr>]\<rparr>]
      else [])"

definition replies :: "portal_method \<Rightarrow> exn + reply" where
  "replies m =
     (if m = CreateSession then ok_reply [ObjectPath ''/request/1''] []
      else if m = SelectSources then ok_reply [ObjectPath ''/request/2''] []
      else if m = Start then ok_reply [ObjectPath ''/request/3''] []
      else if m = OpenPipeWireRemote then ok_reply [Handle 0] [7]
      else ok_reply [] [])"

definition granting_world :: "unit world" where
  "granting_world =
     \<lparr>wayland = True, ws_connect = None, bus_first = None, bus_fallback = None,
      reply_of = replies, signals_for = granted, pipeline_start = None,
      iterations = [\<lparr>capture = Inl TimeoutError, encode = Inr True, send = None\<rparr>,
                    \<lparr>capture = Inr \<lparr>height = 1080, width = 1920, pixels = ()\<rparr>,
                      encode = Inr True, send = Some ConnectionError\<rparr>]\<rparr>"

definition old_dbus_world :: "unit world" where
  "old_dbus_world = granting_world\<lparr>bus_first := Some TypeError\<rparr>"

definition start_denied :: "portal_method \<Rightarrow> message list" where
  "start_denied m = (if m = Start then [response_signal ''/request/3'' 1 no_results] else granted m)"

definition denying_world :: "unit world" where
  "denying_world = granting_world\<lparr>signals_for := start_denied\<rparr>"

definition select_denied_after_other :: "portal_method \<Rightarrow> message list" where
  "select_denied_after_other m =
     (if m = SelectSources
      then [response_signal ''/request/OTHER'' 0 no_results,
            response_signal ''/request/2'' 1 no_results]
      else granted m)"

definition cross_talk_world :: "unit world" where
  "cross_talk_world = granting_world\<lparr>signals_for := select_denied_after_other\<rparr>"

lemmas run_defs = then_run_def emit_def return_def raise_def lift_def index0_def
  call_def call_with_reply_def wait_request_response_first is_response_def
  ok_reply_def response_signal_def granted_def replies_def no_results_def

lemma granting_connect:
  "connect granting_world = ([BusConnect], Inr \<lparr>fd_passing_enabled = True\<rparr>)"
  by (simp add: connect_def granting_world_def run_defs)

lemma granting_create:
  "create_session granting_world
     = ([PortalCall DESKTOP_PATH IFACE_SCREENCAST CreateSession], Inr ''/session/1'')"
  by (simp add: create_session_def granting_world_def run_defs)

lemma granting_select:
  "select_sources granting_world s
     = ([PortalCall DESKTOP_PATH IFACE_SCREENCAST SelectSources], Inr ())"
  by (simp add: select_sources_def granting_world_def run_defs)

lemma granting_start:
  "start granting_world s
     = ([PortalCall DESKTOP_PATH IFACE_SCREENCAST Start],
        Inr [\<lparr>node_id = 42, stream_width = 1920, stream_height = 1080, framerate = None\<rparr>])"
  by (simp add: start_def granting_world_def stream_info_def run_defs)

lemma granting_open:
  "open_pipewire_remote \<lparr>fd_passing_enabled = True\<rparr> granting_world s
     = ([PortalCall DESKTOP_PATH IFACE_SCREENCAST OpenPipeWireRemote], Inr 7)"
  by (simp add: open_pipewire_remote_def granting_world_def run_defs)


lemma granting_try:
  "try_block keep 1280 720 \<lparr>fd_passing_enabled = True\<rparr> granting_world ''/session/1''
     = ([PortalCall DESKTOP_PATH IFACE_SCREENCAST SelectSources,
         PortalCall DESKTOP_PATH IFACE_SCREENCAST Start,
         PortalCall DESKTOP_PATH IFACE_SCREENCAST OpenPipeWireRemote,
         GrabberStart, PrintNoFrames, WsSend],
        Some ConnectionError, True)"
proof -
  have l: "stream_loop keep 1280 720 (iterations granting_world)
             = ([PrintNoFrames, WsSend], Some ConnectionError)"
    using resize_1920_1080(1) by (simp add: granting_world_def get_frame_def)
  have p: "pipeline_start granting_world = None" by (simp add: granting_world_def)
  show ?thesis
    unfolding try_block_def granting_select granting_start granting_open l p
    by (simp add: then_run_Inr index0_def return_def)
qed

lemma granting_run:
  "stream_wayland keep 1280 720 granting_world =
    ([WsConnect, BusConnect,
      PortalCall DESKTOP_PATH IFACE_SCREENCAST CreateSession,
      PortalCall DESKTOP_PATH IFACE_SCREENCAST SelectSources,
      PortalCall DESKTOP_PATH IFACE_SCREENCAST Start,
      PortalCall DESKTOP_PATH IFACE_SCREENCAST OpenPipeWireRemote,
      GrabberStart, PrintNoFrames, WsSend, GrabberStop,
      PortalCall ''/session/1'' IFACE_SESSION Close, WsClose],
     Raised ConnectionError)"
proof -
  have a: "wayland granting_world" and b: "ws_connect granting_world = None"
    by (simp_all add: granting_world_def)
  from stream_wayland_after_session [OF a b granting_connect granting_create granting_try]
  show ?thesis by simp
qed

lemma old_dbus_steps:
  "connect old_dbus_world = ([BusConnect], Inr \<lparr>fd_passing_enabled = False\<rparr>)"
  "create_session old_dbus_world
     = ([PortalCall DESKTOP_PATH IFACE_SCREENCAST CreateSession], Inr ''/session/1'')"
  "select_sources old_dbus_world s
     = ([PortalCall DESKTOP_PATH IFACE_SCREENCAST SelectSources], Inr ())"
  "start old_dbus_world s
     = ([PortalCall DESKTOP_PATH IFACE_SCREENCAST Start],
        Inr [\<lparr>node_id = 42, stream_width = 1920, stream_height = 1080, framerate = None\<rparr>])"
     apply (simp add: connect_def old_dbus_world_def granting_world_def run_defs)
    apply (simp add: create_session_def old_dbus_world_def granting_world_def run_defs)
   apply (simp add: select_sources_def old_dbus_world_def granting_world_def run_defs)
  apply (simp add: start_def old_dbus_world_def granting_world_def stream_info_def run_defs)
  done

lemma old_dbus_run:
  "stream_wayland keep 1280 720 old_dbus_world =
    ([WsConnect, BusConnect,
      PortalCall DESKTOP_PATH IFACE_SCREENCAST CreateSession,
      PortalCall DESKTOP_PATH IFACE_SCREENCAST SelectSources,
      PortalCall DESKTOP_PATH IFACE_SCREENCAST Start,
      PortalCall ''/session/1'' IFACE_SESSION Close, WsClose],
     Raised fd_passing_unsupported)"
proof -
  have a: "wayland old_dbus_world" and b: "ws_connect old_dbus_world = None"
    by (simp_all add: old_dbus_world_def granting_world_def)
  have t: "try_block keep 1280 720 \<lparr>fd_passing_enabled = False\<rparr> old_dbus_world ''/session/1''
     = ([PortalCall DESKTOP_PATH IFACE_SCREENCAST SelectSources,
         PortalCall DESKTOP_PATH IFACE_SCREENCAST Start], Some fd_passing_unsupported, False)"
    unfolding try_block_def old_dbus_steps
    by (simp add: then_run_Inr then_run_Inl index0_def return_def
        open_pipewire_remote_unsupported)
  from stream_wayland_after_session [OF a b old_dbus_steps(1) old_dbus_steps(2) t]
  show ?thesis by simp
qed

lemma denying_steps:
  "connect denying_world = ([BusConnect], Inr \<lparr>fd_passing_enabled = True\<rparr>)"
  "create_session denying_world
     = ([PortalCall DESKTOP_PATH IFACE_SCREENCAST CreateSession], Inr ''/session/1'')"
  "select_sources denying_world s
     = ([PortalCall DESKTOP_PATH IFACE_SCREENCAST SelectSources], Inr ())"
  "start denying_world s
     = ([PortalCall DESKTOP_PATH IFACE_SCREENCAST Start], Inl (failed Start 1))"
     apply (simp add: connect_def denying_world_def granting_world_def run_defs)
    apply (simp add: create_session_def denying_world_def start_denied_def granting_world_def run_defs)
   apply (simp add: select_sources_def denying_world_def start_denied_def granting_world_def run_defs)
  apply (simp add: start_def denying_world_def start_denied_def granting_world_def run_defs)
  done

lemma denying_run:
  "stream_wayland keep 1280 720 denying_world =
    ([WsConnect, BusConnect,
      PortalCall DESKTOP_PATH IFACE_SCREENCAST CreateSession,
      PortalCall DESKTOP_PATH IFACE_SCREENCAST SelectSources,
      PortalCall DESKTOP_PATH IFACE_SCREENCAST Start,
      PortalCall ''/session/1'' IFACE_SESSION Close, WsClose],
     Raised (failed Start 1))"
proof -
  have a: "wayland denying_world" and b: "ws_connect denying_world = None"
    by (simp_all add: denying_world_def granting_world_def)
  have t: "try_block keep 1280 720 \<lparr>fd_passing_enabled = True\<rparr> denying_world ''/session/1''
     = ([PortalCall DESKTOP_PATH IFACE_SCREENCAST SelectSources,
         PortalCall DESKTOP_PATH IFACE_SCREENCAST Start], Some (failed Start 1), False)"
    unfolding try_block_def denying_steps
    by (simp add: then_run_Inr then_run_Inl)
  from stream_wayland_after_session [OF a b denying_steps(1) denying_steps(2) t]
  show ?thesis by simp
qed

lemma cross_talk_steps:
  "connect cross_talk_world = ([BusConnect], Inr \<lparr>fd_passing_enabled = True\<rparr>)"
  "create_session cross_talk_world
     = ([PortalCall DESKTOP_PATH IFACE_SCREENCAST CreateSession], Inr ''/session/1'')"
  "select_sources cross_talk_world s
     = ([PortalCall DESKTOP_PATH IFACE_SCREENCAST SelectSources], Inr ())"
  "start cross_talk_world s
     = ([PortalCall DESKTOP_PATH IFACE_SCREENCAST Start],
        Inr [\<lparr>node_id = 42, stream_width = 1920, stream_height = 1080, framerate = None\<rparr>])"
  "open_pipewire_remote \<lparr>fd_passing_enabled = True\<rparr> cross_talk_world s
     = ([PortalCall DESKTOP_PATH IFACE_SCREENCAST OpenPipeWireRemote], Inr 7)"
      apply (simp add: connect_def cross_talk_world_def granting_world_def run_defs)
     apply (simp add: create_session_def cross_talk_world_def select_denied_after_other_def
      granting_world_def run_defs)
    apply (simp add: select_sources_def cross_talk_world_def select_denied_after_other_def
      granting_world_def run_defs)
   apply (simp add: start_def cross_talk_world_def select_denied_after_other_def
      granting_world_def stream_info_def run_defs)
  apply (simp add: open_pipewire_remote_def cross_talk_world_def granting_world_def run_defs)
  done

lemma cross_talk_run:
  "stream_wayland keep 1280 720 cross_talk_world =
    ([WsConnect, BusConnect,
      PortalCall DESKTOP_PATH IFACE_SCREENCAST CreateSession,
      PortalCall DESKTOP_PATH IFACE_SCREENCAST SelectSources,
      PortalCall DESKTOP_PATH IFACE_SCREENCAST Start,
      PortalCall DESKTOP_PATH IFACE_SCREENCAST OpenPipeWireRemote,
      GrabberStart, PrintNoFrames, WsSend, GrabberStop,
      PortalCall ''/session/1'' IFACE_SESSION Close, WsClose],
     Raised ConnectionError)"
proof -
  have a: "wayland cross_talk_world" and b: "ws_connect cross_talk_world = None"
    by (simp_all add: cross_talk_world_def granting_world_def)
  have l: "stream_loop keep 1280 720 (iterations cross_talk_world)
             = ([PrintNoFrames, WsSend], Some ConnectionError)"
    using resize_1920_1080(1) by (simp add: cross_talk_world_def granting_world_def get_frame_def)
  have p: "pipeline_start cross_talk_world = None"
    by (simp add: cross_talk_world_def granting_world_def)
  have t: "try_block keep 1280 720 \<lparr>fd_passing_enabled = True\<rparr> cross_talk_world ''/session/1''
     = ([PortalCall DESKTOP_PATH IFACE_SCREENCAST SelectSources,
         PortalCall DESKTOP_PATH IFACE_SCREENCAST Start,
         PortalCall DESKTOP_PATH IFACE_SCREENCAST OpenPipeWireRemote,
         GrabberStart, PrintNoFrames, WsSend],
        Some ConnectionError, True)"
    unfolding try_block_def cross_talk_steps l p
    by (simp add: then_run_Inr index0_def return_def)
  from stream_wayland_after_session [OF a b cross_talk_steps(1) cross_talk_steps(2) t]
  show ?thesis by simp
qed

section \<open>The macOS and Windows streamers\<close>

text \<open>
  \<open>stream_screen\<close> of \<open>streamer_mac.py\<close>. The inner loop grabs, resizes, encodes and
  sends; a failed encode goes on to the next pass. The outer loop connects; every
  exception of the connection attempt or of the inner loop is caught, followed by
  \<open>asyncio.sleep(2)\<close> and the next attempt. The environment is the list of attempts, each
  the outcome of the connect and the passes of its inner loop. The pacing sleep and the
  log line are not traced.
\<close>

fun screen_loop ::
  "('p \<Rightarrow> nat \<times> nat \<Rightarrow> 'p) \<Rightarrow> int \<Rightarrow> int \<Rightarrow> 'p iteration list \<Rightarrow> event list \<times> exn option" where
  "screen_loop inter_area max_width max_height [] = ([], None)"
| "screen_loop inter_area max_width max_height (it # its) =
     (case capture it of
        Inl e \<Rightarrow> ([], Some e)
      | Inr img_bgr \<Rightarrow>
          (case resize_if_needed inter_area img_bgr max_width max_height of
             Inl e \<Rightarrow> ([], Some e)
           | Inr img_bgr' \<Rightarrow>
               (case encode it of
                  Inl e \<Rightarrow> ([], Some e)
                | Inr ok \<Rightarrow>
                    if \<not> ok then screen_loop inter_area max_width max_height its
                    else (case send it of
                            Some e \<Rightarrow> ([WsSend], Some e)
                          | None \<Rightarrow>
                              (case screen_loop inter_area max_width max_height its of
                                 (t, r) \<Rightarrow> (WsSend # t, r))))))"

fun stream_screen ::
  "('p \<Rightarrow> nat \<times> nat \<Rightarrow> 'p) \<Rightarrow> int \<Rightarrow> int \<Rightarrow> (exn option \<times> 'p iteration list) list
     \<Rightarrow> event list \<times> outcome" where
  "stream_screen inter_area max_width max_height [] = ([], Running)"
| "stream_screen inter_area max_width max_height ((c, its) # attempts) =
     (case c of
        Some e \<Rightarrow>
          (case stream_screen inter_area max_width max_height attempts of
             (t, r) \<Rightarrow> (WsConnect # ReconnectSleep 2 # t, r))
      | None \<Rightarrow>
          (case screen_loop inter_area max_width max_height its of
             (t, None) \<Rightarrow> (WsConnect # t, Running)
           | (t, Some e) \<Rightarrow>
               (case stream_screen inter_area max_width max_height attempts of
                  (t', r) \<Rightarrow> (WsConnect # t @ [WsClose, ReconnectSleep 2] @ t', r))))"

text \<open>
  \<open>stream_windows\<close> of \<open>streamer_windows.py\<close>: one connection, no \<open>try\<close>, no outer
  loop. \<open>frame_interval = 1.0 / fps\<close> raises for \<open>fps = 0\<close>.
\<close>

fun windows_loop ::
  "('p \<Rightarrow> nat \<times> nat \<Rightarrow> 'p) \<Rightarrow> int \<Rightarrow> int \<Rightarrow> 'p iteration list \<Rightarrow> event list \<times> exn option" where
  "windows_loop inter_area maxw maxh [] = ([], None)"
| "windows_loop inter_area maxw maxh (it # its) =
     (case capture it of
        Inl e \<Rightarrow> ([], Some e)
      | Inr frame \<Rightarrow>
          (case resize_to_max_windows inter_area frame maxw maxh of
             Inl e \<Rightarrow> ([], Some e)
           | Inr frame' \<Rightarrow>
               (case encode it of
                  Inl e \<Rightarrow> ([], Some e)
                | Inr ok \<Rightarrow>
                    if ok
                    then (case send it of
                            Some e \<Rightarrow> ([WsSend], Some e)
                          | None \<Rightarrow>
                              (case windows_loop inter_area maxw maxh its of
                                 (t, r) \<Rightarrow> (WsSend # t, r)))
                    else windows_loop inter_area maxw maxh its)))"

definition stream_windows ::
  "('p \<Rightarrow> nat \<times> nat \<Rightarrow> 'p) \<Rightarrow> int \<Rightarrow> int \<Rightarrow> int \<Rightarrow> exn option \<times> 'p iteration list
     \<Rightarrow> event list \<times> outcome" where
  "stream_windows inter_area fps maxw maxh attempt =
     (case attempt of (c, its) \<Rightarrow>
        (case c of
           Some e \<Rightarrow> ([WsConnect], Raised e)
         | None \<Rightarrow>
             if fps = 0 then ([WsConnect, WsClose], Raised ZeroDivisionError)
             else (case windows_loop inter_area maxw maxh its of
                     (t, None) \<Rightarrow> (WsConnect # t, Running)
                   | (t, Some e) \<Rightarrow> (WsConnect # t @ [WsClose], Raised e))))"

text \<open>
The durations of the reconnect sleeps in a trace.
\<close>

fun sleeps :: "event list \<Rightarrow> nat list" where
  "sleeps [] = []"
| "sleeps (ReconnectSleep d # t) = d # sleeps t"
| "sleeps (ev # t) = sleeps t"

lemma sleeps_append: "sleeps (xs @ ys) = sleeps xs @ sleeps ys"
  by (induction xs rule: sleeps.induct) auto

lemma screen_loop_sleeps: "sleeps (fst (screen_loop inter_area mw mh its)) = []"
  by (induction its) (auto split: sum.splits option.splits prod.splits)

lemma stream_screen_running: "snd (stream_screen inter_area mw mh attempts) = Running"
  by (induction attempts) (auto split: option.splits prod.splits)

lemma stream_screen_sleeps:
  "set (sleeps (fst (stream_screen inter_area mw mh attempts))) \<subseteq> {2}"
proof (induction attempts)
  case Nil
  then show ?case by simp
next
  case (Cons a attempts)
  obtain c its where a: "a = (c, its)" by (cases a)
  obtain t r where l: "screen_loop inter_area mw mh its = (t, r)"
    by (cases "screen_loop inter_area mw mh its")
  from screen_loop_sleeps [of inter_area mw mh its] l have s: "sleeps t = []" by simp
  from Cons a l s show ?case
    by (auto simp: sleeps_append split: option.splits prod.splits)
qed

lemma stream_screen_connect_fails:
  "stream_screen inter_area mw mh ((Some e, its) # attempts)
     = (WsConnect # ReconnectSleep 2 # fst (stream_screen inter_area mw mh attempts), Running)"
  using stream_screen_running [of inter_area mw mh attempts]
  by (cases "stream_screen inter_area mw mh attempts") simp

lemma stream_screen_session_fails:
  "snd (screen_loop inter_area mw mh its) = Some e \<Longrightarrow>
   stream_screen inter_area mw mh ((None, its) # attempts)
     = (WsConnect # fst (screen_loop inter_area mw mh its) @ [WsClose, ReconnectSleep 2]
          @ fst (stream_screen inter_area mw mh attempts), Running)"
  using stream_screen_running [of inter_area mw mh attempts]
  by (cases "stream_screen inter_area mw mh attempts"; cases "screen_loop inter_area mw mh its")
    simp

lemma stream_screen_unbounded:
  "stream_screen inter_area mw mh (replicate n (Some e, its))
     = (concat (replicate n [WsConnect, ReconnectSleep 2]), Running)"
  by (induction n) auto

lemma stream_windows_connect_fails:
  "stream_windows inter_area fps maxw maxh (Some e, its) = ([WsConnect], Raised e)"
  by (simp add: stream_windows_def)

lemma stream_windows_session_fails:
  "snd (windows_loop inter_area maxw maxh its) = Some e \<Longrightarrow> fps \<noteq> 0 \<Longrightarrow>
   stream_windows inter_area fps maxw maxh (None, its)
     = (WsConnect # fst (windows_loop inter_area maxw maxh its) @ [WsClose], Raised e)"
  by (auto simp: stream_windows_def split: prod.splits option.splits)

lemma stream_wayland_connect_fails:
  "wayland w \<Longrightarrow> ws_connect w = Some e \<Longrightarrow>
   stream_wayland inter_area maxw maxh w = ([WsConnect], Raised e)"
  by (simp add: stream_wayland_def)

lemma send_fails_loop:
  "capture it = Inr \<lparr>height = 1080, width = 1920, pixels = ()\<rparr> \<Longrightarrow> encode it = Inr True \<Longrightarrow>
   send it = Some e \<Longrightarrow>
   screen_loop keep 1280 720 [it] = ([WsSend], Some e)
   \<and> windows_loop keep 1280 720 [it] = ([WsSend], Some e)"
  using resize_1920_1080 by simp

text \<open>
  C5. The reply to SelectSources names the request path \<open>/request/2\<close>. While that
  request is awaited, the bus delivers a \<open>Response\<close> signal with code 0 on the path
  \<open>/request/OTHER\<close> and then the \<open>Response\<close> signal of the awaited request, on
  \<open>/request/2\<close>, with code 1. \<open>select_sources\<close> returns without an exception, and
  \<open>stream_wayland\<close> goes on to issue Start and OpenPipeWireRemote, although the signal
  correlated with SelectSources carried response code 1.
\<close>

theorem steps_continue_after_uncorrelated_response:
  "reply_of cross_talk_world SelectSources = ok_reply [ObjectPath ''/request/2''] []
   \<and> signals_for cross_talk_world SelectSources
       = [response_signal ''/request/OTHER'' 0 no_results,
          response_signal ''/request/2'' 1 no_results]
   \<and> filter (\<lambda>m. is_response m \<and> msg_path m = ''/request/2'')
         (signals_for cross_talk_world SelectSources)
       = [response_signal ''/request/2'' 1 no_results]
   \<and> fst (msg_body (response_signal ''/request/2'' 1 no_results)) = 1
   \<and> select_sources cross_talk_world ''/session/1''
       = ([PortalCall DESKTOP_PATH IFACE_SCREENCAST SelectSources], Inr ())
   \<and> portal_steps (fst (stream_wayland keep 1280 720 cross_talk_world))
       = [CreateSession, SelectSources, Start, OpenPipeWireRemote]"
proof -
  have a: "reply_of cross_talk_world SelectSources = ok_reply [ObjectPath ''/request/2''] []"
    by (simp add: cross_talk_world_def granting_world_def replies_def)
  have b: "signals_for cross_talk_world SelectSources
       = [response_signal ''/request/OTHER'' 0 no_results,
          response_signal ''/request/2'' 1 no_results]"
    by (simp add: cross_talk_world_def select_denied_after_other_def)
  have c: "filter (\<lambda>m. is_response m \<and> msg_path m = ''/request/2'')
         [response_signal ''/request/OTHER'' 0 no_results,
          response_signal ''/request/2'' 1 no_results]
       = [response_signal ''/request/2'' 1 no_results]"
    by (simp add: is_response_def response_signal_def)
  have d: "fst (msg_body (response_signal ''/request/2'' 1 no_results)) = 1"
    by (simp add: response_signal_def)
  have e: "portal_steps (fst (stream_wayland keep 1280 720 cross_talk_world))
       = [CreateSession, SelectSources, Start, OpenPipeWireRemote]"
    by (simp add: cross_talk_run portal_steps_def)
  from a b c d e cross_talk_steps(3) [of "''/session/1''"] show ?thesis by simp
qed

text \<open>
  C6. If the bus connection with \<open>negotiate_unix_fd=True\<close> raised \<open>TypeError\<close> and the
  fallback connected, \<open>connect\<close> leaves \<open>fd_passing_enabled\<close> false; then
  \<open>open_pipewire_remote\<close> raises the fd-passing error without any call, no run of
  \<open>stream_wayland\<close> calls OpenPipeWireRemote, and the error differs from the error of a
  denied step, of a D-Bus error reply and of a timeout.
\<close>

theorem fd_passing_fallback:
  assumes "bus_first w = Some TypeError" and "bus_fallback w = None"
  shows "connect w = ([BusConnect], Inr \<lparr>fd_passing_enabled = False\<rparr>)
       \<and> open_pipewire_remote \<lparr>fd_passing_enabled = False\<rparr> w session
            = ([], Inl fd_passing_unsupported)
       \<and> OpenPipeWireRemote \<notin> set (calls (fst (stream_wayland inter_area maxw maxh w)))
       \<and> fd_passing_unsupported \<noteq> failed m code
       \<and> fd_passing_unsupported \<noteq> RuntimeError (''D-Bus error calling '' @ rest)
       \<and> fd_passing_unsupported \<noteq> TimeoutError"
proof -
  have "open_pipewire_remote \<lparr>fd_passing_enabled = False\<rparr> w session
            = ([], Inl fd_passing_unsupported)"
    by (rule open_pipewire_remote_unsupported) simp
  moreover have "fd_passing_unsupported \<noteq> TimeoutError"
    by (simp add: fd_passing_unsupported_def)
  ultimately show ?thesis
    using connect_fallback [OF assms] fallback_never_opens [OF assms]
      unsupported_not_denial unsupported_not_dbus_error by blast
qed

theorem fd_passing_fallback_witness:
  "connect old_dbus_world = ([BusConnect], Inr \<lparr>fd_passing_enabled = False\<rparr>)
   \<and> OpenPipeWireRemote \<notin> set (calls (fst (stream_wayland keep 1280 720 old_dbus_world)))
   \<and> snd (stream_wayland keep 1280 720 old_dbus_world) = Raised fd_passing_unsupported
   \<and> fd_passing_unsupported \<noteq> failed OpenPipeWireRemote 2"
proof -
  have a: "bus_first old_dbus_world = Some TypeError" and b: "bus_fallback old_dbus_world = None"
    by (simp_all add: old_dbus_world_def granting_world_def)
  from fd_passing_fallback [where w = old_dbus_world and session = "''/session/1''"
      and inter_area = keep and maxw = 1280 and maxh = 720 and m = OpenPipeWireRemote
      and code = 2 and rest = "[]", OF a b]
  show ?thesis by (simp add: old_dbus_run)
qed

text \<open>
  C7. For every timeout value, \<open>get_frame\<close> returns \<open>None\<close> when the wait for a frame
  times out. The streaming loop answers such a pass with the "no frames yet" line and
  goes on with the next pass: nothing is sent or closed, and any number of timeouts in a
  row leaves the loop running.
\<close>

theorem frame_timeout_skips:
  "get_frame timeout_s (Inl TimeoutError) = Inr None
   \<and> (capture it = Inl TimeoutError \<longrightarrow>
        stream_loop inter_area maxw maxh (it # its)
          = (PrintNoFrames # fst (stream_loop inter_area maxw maxh its),
             snd (stream_loop inter_area maxw maxh its)))
   \<and> ((\<forall>it \<in> set tos. capture it = Inl TimeoutError) \<longrightarrow>
        stream_loop inter_area maxw maxh (tos @ its)
          = (replicate (length tos) PrintNoFrames @ fst (stream_loop inter_area maxw maxh its),
             snd (stream_loop inter_area maxw maxh its)))"
  using get_frame_timeout stream_loop_timeout stream_loop_timeouts by blast

theorem frame_timeout_skips_witness:
  "stream_loop keep 1280 720
     [\<lparr>capture = Inl TimeoutError, encode = Inr True, send = None\<rparr>,
      \<lparr>capture = Inl TimeoutError, encode = Inr True, send = None\<rparr>,
      \<lparr>capture = Inr \<lparr>height = 720, width = 1280, pixels = ()\<rparr>, encode = Inr True, send = None\<rparr>]
   = ([PrintNoFrames, PrintNoFrames, WsSend], None)"
proof -
  let ?to = "\<lparr>capture = Inl TimeoutError, encode = Inr True, send = None\<rparr> :: unit iteration"
  let ?fr = "\<lparr>capture = Inr \<lparr>height = 720, width = 1280, pixels = ()\<rparr>, encode = Inr True,
              send = None\<rparr>"
  have "resize_to_max keep \<lparr>height = 720, width = 1280, pixels = ()\<rparr> 1280 720
          = Inr \<lparr>height = 720, width = 1280, pixels = ()\<rparr>"
    by (rule resize_to_max_within_double) simp_all
  then have l: "stream_loop keep 1280 720 [?fr] = ([WsSend], None)"
    by (simp add: get_frame_def)
  have p: "\<forall>it \<in> set [?to, ?to]. capture it = Inl TimeoutError" by simp
  from frame_timeout_skips [where timeout_s = 3 and it = ?to and inter_area = keep
      and maxw = 1280 and maxh = 720 and its = "[?fr]" and tos = "[?to, ?to]"] p
  have "stream_loop keep 1280 720 ([?to, ?to] @ [?fr])
          = (replicate (length [?to, ?to]) PrintNoFrames @ fst (stream_loop keep 1280 720 [?fr]),
             snd (stream_loop keep 1280 720 [?fr]))"
    by blast
  then show ?thesis unfolding l by (simp del: stream_loop.simps)
qed

text \<open>
  C8. Once \<open>create_session\<close> has returned a session, a run of \<open>stream_wayland\<close> never
  returns normally, and whenever it is ended by an exception (of SelectSources, Start,
  OpenPipeWireRemote, the pipeline start or the streaming loop) the trace ends with the
  \<open>Close\<close> call on that session, made once, and the closing of the websocket.
  \<open>close_session\<close> raises nothing, whatever the reply to \<open>Close\<close>.
\<close>

theorem session_closed_on_teardown:
  assumes "wayland w" and "ws_connect w = None"
    and "snd (connect w) = Inr p" and "snd (create_session w) = Inr session"
  shows "(snd (stream_wayland inter_area maxw maxh w) = Raised e \<longrightarrow>
           (\<exists>t. fst (stream_wayland inter_area maxw maxh w)
                   = t @ [PortalCall session IFACE_SESSION Close, WsClose]
                 \<and> Close \<notin> set (calls t)))
       \<and> snd (stream_wayland inter_area maxw maxh w) \<noteq> Returned
       \<and> close_session w' session' = ([PortalCall session' IFACE_SESSION Close], Inr ())"
  using close_after_session [OF assms] never_returns_after_session [OF assms]
    close_session_always by blast

theorem session_closed_on_teardown_witness:
  "fst (stream_wayland keep 1280 720 denying_world)
     = [WsConnect, BusConnect,
        PortalCall DESKTOP_PATH IFACE_SCREENCAST CreateSession,
        PortalCall DESKTOP_PATH IFACE_SCREENCAST SelectSources,
        PortalCall DESKTOP_PATH IFACE_SCREENCAST Start]
       @ [PortalCall ''/session/1'' IFACE_SESSION Close, WsClose]
   \<and> snd (stream_wayland keep 1280 720 denying_world) = Raised (failed Start 1)
   \<and> close_session (denying_world\<lparr>reply_of := \<lambda>m. Inl ConnectionError\<rparr>) ''/session/1''
       = ([PortalCall ''/session/1'' IFACE_SESSION Close], Inr ())"
proof -
  have a: "wayland denying_world" and b: "ws_connect denying_world = None"
    by (simp_all add: denying_world_def granting_world_def)
  have c: "snd (connect denying_world) = Inr \<lparr>fd_passing_enabled = True\<rparr>"
    by (simp add: denying_steps(1))
  have d: "snd (create_session denying_world) = Inr ''/session/1''"
    by (simp add: denying_steps(2))
  from session_closed_on_teardown [where w = denying_world and inter_area = keep
      and maxw = 1280 and maxh = 720 and e = "failed Start 1"
      and w' = "denying_world\<lparr>reply_of := \<lambda>m. Inl ConnectionError\<rparr>"
      and session' = "''/session/1''", OF a b c d]
  show ?thesis by (simp add: denying_run)
qed

text \<open>
  On Windows a refused connection ends \<open>stream_windows\<close> with the exception: there is
  no delay and no second attempt.
\<close>

theorem transport_failure_ends_windows:
  "stream_windows keep 10 1280 720 (Some ConnectionError, []) = ([WsConnect], Raised ConnectionError)"
  by (simp add: stream_windows_def)

text \<open>
  C3, amended. On macOS \<open>stream_screen\<close> is never ended by a connect or send failure:
  a failed connect is followed by a sleep of 2 seconds and the next attempt, a failure
  inside a connected session closes that connection and is followed by the same sleep
  and the next attempt, every reconnect sleep lasts 2 seconds, and any number of failed
  attempts in a row is retried. On Windows and on Linux a failed connect, and on Windows
  a failure inside the session, end the function with the exception.
\<close>

theorem reconnect_policy:
  "snd (stream_screen inter_area mw mh attempts) = Running
   \<and> set (sleeps (fst (stream_screen inter_area mw mh attempts))) \<subseteq> {2}
   \<and> stream_screen inter_area mw mh ((Some e, its) # attempts)
        = (WsConnect # ReconnectSleep 2 # fst (stream_screen inter_area mw mh attempts), Running)
   \<and> (snd (screen_loop inter_area mw mh its) = Some e \<longrightarrow>
        stream_screen inter_area mw mh ((None, its) # attempts)
          = (WsConnect # fst (screen_loop inter_area mw mh its) @ [WsClose, ReconnectSleep 2]
               @ fst (stream_screen inter_area mw mh attempts), Running))
   \<and> stream_screen inter_area mw mh (replicate n (Some e, its))
        = (concat (replicate n [WsConnect, ReconnectSleep 2]), Running)
   \<and> stream_windows inter_area fps mw mh (Some e, its) = ([WsConnect], Raised e)
   \<and> (snd (windows_loop inter_area mw mh its) = Some e \<and> fps \<noteq> 0 \<longrightarrow>
        stream_windows inter_area fps mw mh (None, its)
          = (WsConnect # fst (windows_loop inter_area mw mh its) @ [WsClose], Raised e))
   \<and> (wayland w \<and> ws_connect w = Some e \<longrightarrow>
        stream_wayland inter_area mw mh w = ([WsConnect], Raised e))"
  using stream_screen_running [of inter_area mw mh attempts]
    stream_screen_sleeps [of inter_area mw mh attempts]
    stream_screen_connect_fails [of inter_area mw mh e its attempts]
    stream_screen_session_fails [of inter_area mw mh its e attempts]
    stream_screen_unbounded [of inter_area mw mh n e its]
    stream_windows_connect_fails [of inter_area fps mw mh e its]
    stream_windows_session_fails [of inter_area mw mh its e fps]
    stream_wayland_connect_fails [of w e inter_area mw mh]
  by blast

theorem reconnect_policy_witness:
  "stream_screen keep 1280 720
     [(None, [\<lparr>capture = Inr \<lparr>height = 1080, width = 1920, pixels = ()\<rparr>, encode = Inr True,
               send = Some ConnectionError\<rparr>]),
      (Some ConnectionError, [])]
     = ([WsConnect, WsSend, WsClose, ReconnectSleep 2, WsConnect, ReconnectSleep 2], Running)
   \<and> stream_windows keep 10 1280 720
       (None, [\<lparr>capture = Inr \<lparr>height = 1080, width = 1920, pixels = ()\<rparr>, encode = Inr True,
                send = Some ConnectionError\<rparr>])
     = ([WsConnect, WsSend, WsClose], Raised ConnectionError)
   \<and> stream_wayland keep 1280 720 (granting_world\<lparr>ws_connect := Some ConnectionError\<rparr>)
     = ([WsConnect], Raised ConnectionError)"
proof -
  let ?it = "\<lparr>capture = Inr \<lparr>height = 1080, width = 1920, pixels = ()\<rparr>, encode = Inr True,
              send = Some ConnectionError\<rparr> :: unit iteration"
  have l: "screen_loop keep 1280 720 [?it] = ([WsSend], Some ConnectionError)
           \<and> windows_loop keep 1280 720 [?it] = ([WsSend], Some ConnectionError)"
    by (rule send_fails_loop) simp_all
  have w: "wayland (granting_world\<lparr>ws_connect := Some ConnectionError\<rparr>)
           \<and> ws_connect (granting_world\<lparr>ws_connect := Some ConnectionError\<rparr>) = Some ConnectionError"
    by (simp add: granting_world_def)
  have r: "stream_screen keep 1280 720 [(Some ConnectionError, [])]
             = ([WsConnect, ReconnectSleep 2], Running)"
    by simp
  from reconnect_policy [where inter_area = keep and mw = 1280 and mh = 720
      and attempts = "[(Some ConnectionError, [])]" and e = ConnectionError and its = "[?it]"
      and n = 0 and fps = 10
      and w = "granting_world\<lparr>ws_connect := Some ConnectionError\<rparr>"] l w r
  show ?thesis by simp
qed

end
